theory Spec2Isabelle
  imports Main "HOL-Library.Finite_Map"
begin

section \<open>Errors\<close>

text \<open>
  Go errors are values. The sentinel errors of the packages \<open>chain\<close> and \<open>context\<close> are
  constructors; \<open>fmt.Errorf\<close> keeps its format string and its arguments, and the \<open>%w\<close>
  verb (also used by \<open>errors.WrapError\<close>) keeps the wrapped error; the format strings
  are written without their apostrophes. An error returned by a collaborator (factory,
  client) is \<open>External\<close>, and the run-time panic of a nil pointer dereference is
  \<open>NilDereference\<close>.
\<close>

datatype arg = S string | I int

datatype error =
    ErrUnknownDependency
  | ErrCyclicDependency
  | ErrRequestExecution
  | ErrCreateRequest
  | ErrVariableExtraction
  | ErrEmptyVariableName
  | ErrMaxRecursionDepth
  | ErrNilResponse
  | ErrReadResponseBody
  | ErrPathNotFound
  | ErrResponseTooLarge
  | Canceled
  | DeadlineExceeded
  | External string
  | NilDereference
  | Errorf string "arg list"
  | Wrapf string "arg list" error

text \<open>\<open>errors.Is\<close>: the target is the error itself or is reached by unwrapping.\<close>

fun errorsIs :: "error \<Rightarrow> error \<Rightarrow> bool" where
  "errorsIs (Wrapf fmt as e) target = (Wrapf fmt as e = target \<or> errorsIs e target)"
| "errorsIs e target = (e = target)"

text \<open>\<open>errors.WrapError(err, format)\<close>: nil stays nil.\<close>

fun WrapError :: "error option \<Rightarrow> string \<Rightarrow> error option" where
  "WrapError None fmt = None"
| "WrapError (Some err) fmt = Some (Wrapf fmt [] err)"

section \<open>Configuration (package rule)\<close>

text \<open>
  A \<open>*string\<close> body is a \<open>string option\<close> (nil is \<open>None\<close>); the \<open>Extract\<close> map is
  a list of pairs, in the order in which a \<open>range\<close> over it visits the entries.
  \<open>Timeout\<close> is a \<open>uint8\<close> number of seconds, which none of the functions below reads.
\<close>

record Request =
  Name :: string
  Method :: string
  Path :: string
  Headers :: "string list"
  RawBody :: "string option"
  FormBody :: "string option"
  JsonBody :: "string option"
  Extract :: "(string \<times> string) list"
  DependsOn :: string

record Config =
  BaseUrl :: string
  Timeout :: nat
  Concurrency :: bool
  IgnoreFail :: bool
  Request :: "Request list"

definition validateBaseConfig :: "Config \<Rightarrow> error option" where
  "validateBaseConfig c =
     (if BaseUrl c = [] then Some (Errorf ''base_url is required in config'' [])
      else if length (Request c) = 0 then Some (Errorf ''at least one request must be defined'' [])
      else None)"

text \<open>\<open>nameSet\<close> is a \<open>map[string]bool\<close> that only ever stores \<open>true\<close>: a set of names.\<close>

definition validateRequestName :: "string \<Rightarrow> nat \<Rightarrow> string set \<Rightarrow> error option \<times> string set" where
  "validateRequestName name index nameSet =
     (if name = [] then (Some (Errorf ''request at index %d has no name'' [I (int index)]), nameSet)
      else if name \<in> nameSet then (Some (Errorf ''duplicate request name: %s'' [S name]), nameSet)
      else (None, insert name nameSet))"

definition validateRequestBasics :: "Request \<Rightarrow> error option" where
  "validateRequestBasics req =
     (if Method req = [] then Some (Errorf ''method is required for request %s'' [S (Name req)])
      else if Path req = [] then Some (Errorf ''path is required for request %s'' [S (Name req)])
      else None)"

text \<open>\<open>s != nil && *s != ""\<close>, the test of \<open>validateRequestBody\<close> and of \<open>isNonEmptyStringPtr\<close>.\<close>

fun isNonEmptyStringPtr :: "string option \<Rightarrow> bool" where
  "isNonEmptyStringPtr None = False"
| "isNonEmptyStringPtr (Some s) = (s \<noteq> [])"

definition bodyCount :: "Request \<Rightarrow> nat" where
  "bodyCount req =
     (if isNonEmptyStringPtr (JsonBody req) then 1 else 0)
   + (if isNonEmptyStringPtr (FormBody req) then 1 else 0)
   + (if isNonEmptyStringPtr (RawBody req) then 1 else 0)"

definition validateRequestBody :: "Request \<Rightarrow> error option" where
  "validateRequestBody req =
     (if bodyCount req > 1
      then Some (Errorf ''multiple body types specified for request %s'' [S (Name req)])
      else None)"

definition validateRequest :: "Request \<Rightarrow> nat \<Rightarrow> string set \<Rightarrow> error option \<times> string set" where
  "validateRequest req index nameSet =
     (case validateRequestName (Name req) index nameSet of
        (Some err, ns) \<Rightarrow> (Some err, ns)
      | (None, ns) \<Rightarrow>
          (case validateRequestBasics req of
             Some err \<Rightarrow> (Some err, ns)
           | None \<Rightarrow> (validateRequestBody req, ns)))"

text \<open>The loop of \<open>validateRequests\<close> from index \<open>i\<close> on, with the names seen so far.\<close>

fun validateRequestsFrom :: "Request list \<Rightarrow> nat \<Rightarrow> string set \<Rightarrow> error option" where
  "validateRequestsFrom [] i nameSet = None"
| "validateRequestsFrom (req # reqs) i nameSet =
     (case validateRequest req i nameSet of
        (Some err, ns) \<Rightarrow> Some err
      | (None, ns) \<Rightarrow> validateRequestsFrom reqs (Suc i) ns)"

definition validateRequests :: "Config \<Rightarrow> error option" where
  "validateRequests c = validateRequestsFrom (Request c) 0 {}"

definition Validate :: "Config \<Rightarrow> error option" where
  "Validate c =
     (case validateBaseConfig c of
        Some err \<Rightarrow> Some err
      | None \<Rightarrow> validateRequests c)"

section \<open>Variable store (package chain)\<close>

definition maxVariableRecursionDepth :: nat where
  "maxVariableRecursionDepth = 5"

definition maxVariableValueLength :: nat where
  "maxVariableValueLength = 1000"

definition maxResponseBodySize :: nat where
  "maxResponseBodySize = 10 * 1024 * 1024"

definition maxBodySizeMultiplier :: nat where
  "maxBodySizeMultiplier = 10"

subsection \<open>The pattern \<open>\<dollar>{([^}]+)}\<close>\<close>

text \<open>
  \<open>variablePattern\<close> is the regular expression \<^verbatim>\<open>\${([^}]+)}\<close>: a dollar sign, an
  opening brace, one or more characters other than the closing brace, a closing brace.
  \<open>findClose\<close> splits a string at its first closing brace; \<open>matchAt\<close> is the match of
  the pattern anchored at the head of the string, with the text left after it. The
  three delimiters are ASCII, so matching bytes is matching UTF-8 runes.
\<close>

fun findClose :: "string \<Rightarrow> (string \<times> string) option" where
  "findClose [] = None"
| "findClose (c # cs) =
     (if c = CHR ''}'' then Some ([], cs)
      else (case findClose cs of
              None \<Rightarrow> None
            | Some (n, rest) \<Rightarrow> Some (c # n, rest)))"

fun matchAt :: "string \<Rightarrow> (string \<times> string) option" where
  "matchAt (a # b # r) =
     (if a = CHR ''$'' \<and> b = CHR ''{''
      then (case findClose r of
              None \<Rightarrow> None
            | Some (n, rest) \<Rightarrow> if n = [] then None else Some (a # b # n @ ''}'', rest))
      else None)"
| "matchAt s = None"

lemma findClose_length: "findClose s = Some (n, rest) \<Longrightarrow> length rest < length s"
  by (induction s arbitrary: n rest) (auto split: if_splits option.splits)

lemma matchAt_length: "matchAt s = Some (m, rest) \<Longrightarrow> length rest < length s"
  by (cases s rule: matchAt.cases) (auto split: if_splits option.splits dest: findClose_length)

text \<open>
  \<open>ReplaceAllStringFunc\<close> of Go's \<open>regexp\<close>: the leftmost match is replaced by the
  function's result, the search goes on after the match, and the replacement text is
  not searched again.
\<close>

function ReplaceAllStringFunc :: "(string \<Rightarrow> string) \<Rightarrow> string \<Rightarrow> string" where
  "ReplaceAllStringFunc repl [] = []"
| "ReplaceAllStringFunc repl (c # cs) =
     (case matchAt (c # cs) of
        Some (m, rest) \<Rightarrow> repl m @ ReplaceAllStringFunc repl rest
      | None \<Rightarrow> c # ReplaceAllStringFunc repl cs)"
  by pat_completeness auto
termination
  by (relation "measure (\<lambda>(repl, s). length s)") (auto dest: matchAt_length)

text \<open>
  \<open>MatchString\<close> of Go's \<open>regexp\<close>: some substring of the text matches the pattern,
  that is, the pattern matches at the head of some suffix.
\<close>

fun MatchString :: "string \<Rightarrow> bool" where
  "MatchString [] = False"
| "MatchString (c # cs) = (matchAt (c # cs) \<noteq> None \<or> MatchString cs)"

subsection \<open>DefaultVariableResolver\<close>

text \<open>The \<open>values\<close> map of the resolver; \<open>Set\<close> returns the error and the new map.\<close>

type_synonym variables = "string \<rightharpoonup> string"

definition Set_var :: "variables \<Rightarrow> string \<Rightarrow> string \<Rightarrow> error option \<times> variables" where
  "Set_var vals name v =
     (if name = [] then (Some ErrEmptyVariableName, vals) else (None, vals(name \<mapsto> v)))"

definition Get_var :: "variables \<Rightarrow> string \<Rightarrow> string \<times> bool" where
  "Get_var vals name = (case vals name of None \<Rightarrow> ([], False) | Some v \<Rightarrow> (v, True))"

definition truncateValue :: "string \<Rightarrow> nat \<Rightarrow> string" where
  "truncateValue v maxLength = (if length v \<le> maxLength then v else take maxLength v)"

definition truncateIfNeeded :: "string \<Rightarrow> string" where
  "truncateIfNeeded v =
     (if length v > maxVariableValueLength then truncateValue v maxVariableValueLength else v)"

definition extractVariableName :: "string \<Rightarrow> string" where
  "extractVariableName m = (if length m < 4 then [] else take (length m - 1 - 2) (drop 2 m))"

function resolveRecursively :: "variables \<Rightarrow> string \<Rightarrow> nat \<Rightarrow> string \<times> error option"
  and resolveVariable :: "variables \<Rightarrow> string \<Rightarrow> nat \<Rightarrow> string" where
  "resolveRecursively vals input depth =
     (if depth \<ge> maxVariableRecursionDepth then (input, Some ErrMaxRecursionDepth)
      else (ReplaceAllStringFunc (\<lambda>m. resolveVariable vals m depth) input, None))"
| "resolveVariable vals m depth =
     (case vals (extractVariableName m) of
        None \<Rightarrow> m
      | Some v \<Rightarrow>
          (case resolveRecursively vals (truncateIfNeeded v) (depth + 1) of
             (resolved, Some err) \<Rightarrow> m
           | (resolved, None) \<Rightarrow> resolved))"
  by pat_completeness auto
termination
  by (relation "measure (\<lambda>x. case x of
          Inl (vals, input, depth) \<Rightarrow>
            (if depth \<ge> maxVariableRecursionDepth then 0
             else 2 * (maxVariableRecursionDepth - depth) + 2)
        | Inr (vals, m, depth) \<Rightarrow> 2 * (maxVariableRecursionDepth - depth) + 1)")
     (auto simp: maxVariableRecursionDepth_def)

definition Resolve :: "variables \<Rightarrow> string \<Rightarrow> string" where
  "Resolve vals input =
     (if input = [] then input
      else (case resolveRecursively vals input 0 of
              (resolved, Some err) \<Rightarrow> input
            | (resolved, None) \<Rightarrow> resolved))"

definition ResolveHeaders :: "variables \<Rightarrow> string list \<Rightarrow> string list" where
  "ResolveHeaders vals headers = (if length headers = 0 then headers else map (Resolve vals) headers)"

definition ResolveBody :: "variables \<Rightarrow> string option \<Rightarrow> string option" where
  "ResolveBody vals body =
     (case body of
        None \<Rightarrow> None
      | Some b \<Rightarrow>
          if b = [] then Some b
          else (let resolved = Resolve vals b;
                    maxBodySize = maxVariableValueLength * maxBodySizeMultiplier
                in if length resolved > maxBodySize then Some (take maxBodySize resolved)
                   else Some resolved))"

section \<open>Dependency resolver (package chain)\<close>

text \<open>
  The three maps of the resolver are finite maps. A \<open>context.Context\<close> argument is
  the value of \<open>ctx.Err()\<close> when the function polls it: \<open>None\<close> while the context is
  live. The order in which \<open>range\<close> visits the keys of a Go map is unspecified, so a
  function that ranges over \<open>dr.requests\<close> takes the order as an argument \<open>keys\<close>,
  any enumeration of the keys without repetition (\<open>iteration_of\<close>).
\<close>

type_synonym ctx = "error option"

record DependencyResolver =
  requests :: "(string, Request) fmap"
  dependencies :: "(string, string list) fmap"
  dependsOn :: "(string, string) fmap"

definition NewDependencyResolver :: DependencyResolver where
  "NewDependencyResolver = \<lparr>requests = fmempty, dependencies = fmempty, dependsOn = fmempty\<rparr>"

definition iteration_of :: "string list \<Rightarrow> DependencyResolver \<Rightarrow> bool" where
  "iteration_of keys dr = (distinct keys \<and> set keys = fmdom' (requests dr))"

definition cyclicError :: "string \<Rightarrow> error" where
  "cyclicError name =
     Wrapf ''cyclic dependency detected with request %s'' [S name] ErrCyclicDependency"

text \<open>
  \<open>hasCycle\<close> returns its verdict and the \<open>visited\<close> map as it leaves it (a
  \<open>map[string]bool\<close> whose entries are \<open>true\<close> or deleted: a set).
\<close>

function hasCycle :: "DependencyResolver \<Rightarrow> string \<Rightarrow> string set \<Rightarrow> bool \<times> string set" where
  "hasCycle dr nodeName visited =
     (if nodeName \<in> visited then (True, visited)
      else (case fmlookup (dependsOn dr) nodeName of
              None \<Rightarrow> (False, visited)
            | Some dep \<Rightarrow>
                (case hasCycle dr dep (insert nodeName visited) of
                   (True, visited') \<Rightarrow> (True, visited')
                 | (False, visited') \<Rightarrow> (False, visited' - {nodeName}))))"
  by pat_completeness auto
termination
proof (relation "measure (\<lambda>(dr, nodeName, visited). card (fmdom' (dependsOn dr) - visited))")
  show "wf (measure (\<lambda>(dr, nodeName, visited). card (fmdom' (dependsOn dr) - visited)))"
    by simp
next
  fix dr :: DependencyResolver and nodeName visited dep
  assume a: "nodeName \<notin> visited" "fmlookup (dependsOn dr) nodeName = Some dep"
  then have "nodeName \<in> fmdom' (dependsOn dr)"
    by (simp add: fmdom'I)
  with a have "fmdom' (dependsOn dr) - insert nodeName visited \<subset> fmdom' (dependsOn dr) - visited"
    by auto
  then have "card (fmdom' (dependsOn dr) - insert nodeName visited)
      < card (fmdom' (dependsOn dr) - visited)"
    by (simp add: psubset_card_mono)
  then show "((dr, dep, insert nodeName visited), (dr, nodeName, visited))
       \<in> measure (\<lambda>(dr, nodeName, visited). card (fmdom' (dependsOn dr) - visited))"
    by simp
qed

declare hasCycle.simps [simp del]

text \<open>The loop of \<open>detectCycles\<close>: a fresh \<open>visited\<close> map for every name.\<close>

fun detectCyclesLoop :: "DependencyResolver \<Rightarrow> string list \<Rightarrow> error option" where
  "detectCyclesLoop dr [] = None"
| "detectCyclesLoop dr (name # names) =
     (if fst (hasCycle dr name {}) then Some (cyclicError name)
      else detectCyclesLoop dr names)"

definition detectCycles :: "ctx \<Rightarrow> DependencyResolver \<Rightarrow> string list \<Rightarrow> error option" where
  "detectCycles ctx dr keys =
     (case ctx of
        Some cerr \<Rightarrow> Some cerr
      | None \<Rightarrow> detectCyclesLoop dr keys)"

definition unknownDependencyError :: "Request \<Rightarrow> error" where
  "unknownDependencyError req =
     Wrapf ''request %s depends on unknown request %s'' [S (Name req), S (DependsOn req)]
       ErrUnknownDependency"

text \<open>
  \<open>recordDependency\<close> is the body of the loop of \<open>buildDependencyMaps\<close> for a request
  whose dependency exists; \<open>append\<close> to a missing entry appends to the nil slice.
\<close>

definition recordDependency :: "DependencyResolver \<Rightarrow> Request \<Rightarrow> DependencyResolver" where
  "recordDependency dr req =
     dr\<lparr>dependencies :=
          fmupd (DependsOn req)
            ((case fmlookup (dependencies dr) (DependsOn req) of None \<Rightarrow> [] | Some ns \<Rightarrow> ns)
               @ [Name req])
            (dependencies dr),
        dependsOn := fmupd (Name req) (DependsOn req) (dependsOn dr)\<rparr>"

fun buildDependencyMapsLoop ::
  "DependencyResolver \<Rightarrow> Request list \<Rightarrow> error option \<times> DependencyResolver" where
  "buildDependencyMapsLoop dr [] = (None, dr)"
| "buildDependencyMapsLoop dr (req # reqs) =
     (if DependsOn req \<noteq> []
      then (case fmlookup (requests dr) (DependsOn req) of
              None \<Rightarrow> (Some (unknownDependencyError req), dr)
            | Some r \<Rightarrow> buildDependencyMapsLoop (recordDependency dr req) reqs)
      else buildDependencyMapsLoop dr reqs)"

definition buildDependencyMaps ::
  "ctx \<Rightarrow> DependencyResolver \<Rightarrow> Config \<Rightarrow> string list \<Rightarrow> error option \<times> DependencyResolver" where
  "buildDependencyMaps ctx dr config keys =
     (case ctx of
        Some cerr \<Rightarrow> (Some cerr, dr)
      | None \<Rightarrow>
          (case buildDependencyMapsLoop dr (Request config) of
             (Some err, dr') \<Rightarrow> (Some err, dr')
           | (None, dr') \<Rightarrow> (detectCycles ctx dr' keys, dr')))"

text \<open>The first loop of \<open>BuildRequestGraph\<close>: a later request of the same name replaces an earlier one.\<close>

fun indexRequests :: "DependencyResolver \<Rightarrow> Request list \<Rightarrow> DependencyResolver" where
  "indexRequests dr [] = dr"
| "indexRequests dr (req # reqs) =
     indexRequests (dr\<lparr>requests := fmupd (Name req) req (requests dr)\<rparr>) reqs"

definition BuildRequestGraph ::
  "ctx \<Rightarrow> DependencyResolver \<Rightarrow> Config \<Rightarrow> string list \<Rightarrow> error option \<times> DependencyResolver" where
  "BuildRequestGraph ctx dr config keys =
     (case ctx of
        Some cerr \<Rightarrow> (Some cerr, dr)
      | None \<Rightarrow> buildDependencyMaps ctx (indexRequests dr (Request config)) config keys)"

text \<open>
  The closure \<open>visit\<close> of \<open>CalculateExecutionOrder\<close> works on three captured variables,
  here the state \<open>(visited, visiting, result)\<close>, which it returns with its error.
  \<open>markDone\<close> is its last block: leave \<open>visiting\<close>, enter \<open>visited\<close>, append to \<open>result\<close>.
\<close>

type_synonym visit_state = "string set \<times> string set \<times> string list"

fun markDone :: "string \<Rightarrow> visit_state \<Rightarrow> visit_state" where
  "markDone name (visited, visiting, result) =
     (insert name visited, visiting - {name}, result @ [name])"

function visit :: "DependencyResolver \<Rightarrow> string \<Rightarrow> visit_state \<Rightarrow> error option \<times> visit_state" where
  "visit dr name (visited, visiting, result) =
     (if name \<in> visiting then (Some (cyclicError name), (visited, visiting, result))
      else if name \<in> visited then (None, (visited, visiting, result))
      else (case fmlookup (dependsOn dr) name of
              Some dep \<Rightarrow>
                (case visit dr dep (visited, insert name visiting, result) of
                   (Some err, st) \<Rightarrow> (Some err, st)
                 | (None, st) \<Rightarrow> (None, markDone name st))
            | None \<Rightarrow> (None, markDone name (visited, insert name visiting, result))))"
  by pat_completeness auto
termination
proof (relation "measure (\<lambda>(dr, name, visited, visiting, result).
          card (fmdom' (dependsOn dr) - visiting))")
  show "wf (measure (\<lambda>(dr, name, visited, visiting, result).
          card (fmdom' (dependsOn dr) - visiting)))"
    by simp
next
  fix dr :: DependencyResolver and name dep and visited visiting :: "string set"
    and result :: "string list"
  assume a: "name \<notin> visiting" "fmlookup (dependsOn dr) name = Some dep"
  then have "name \<in> fmdom' (dependsOn dr)"
    by (simp add: fmdom'I)
  with a have "fmdom' (dependsOn dr) - insert name visiting \<subset> fmdom' (dependsOn dr) - visiting"
    by auto
  then have "card (fmdom' (dependsOn dr) - insert name visiting)
      < card (fmdom' (dependsOn dr) - visiting)"
    by (simp add: psubset_card_mono)
  then show "((dr, dep, visited, insert name visiting, result), (dr, name, visited, visiting, result))
       \<in> measure (\<lambda>(dr, name, visited, visiting, result).
            card (fmdom' (dependsOn dr) - visiting))"
    by simp
qed

declare visit.simps [simp del]

text \<open>The loop \<open>for name := range dr.requests\<close> of \<open>CalculateExecutionOrder\<close>.\<close>

fun visitAll :: "DependencyResolver \<Rightarrow> string list \<Rightarrow> visit_state \<Rightarrow> error option \<times> visit_state" where
  "visitAll dr [] st = (None, st)"
| "visitAll dr (name # names) st =
     (case visit dr name st of
        (Some err, st') \<Rightarrow> (Some err, st')
      | (None, st') \<Rightarrow> visitAll dr names st')"

text \<open>
  \<open>reverseStringSlice\<close> swaps in place from both ends: \<open>reverseFrom slice i j\<close> is
  its loop at the indices \<open>i\<close> and \<open>j\<close>. On the empty slice Go's \<open>j\<close> is \<open>-1\<close> and the
  natural number \<open>0\<close> here; the loop does not run in either case.
\<close>

function reverseFrom :: "string list \<Rightarrow> nat \<Rightarrow> nat \<Rightarrow> string list" where
  "reverseFrom slice i j =
     (if i < j then reverseFrom (slice[i := slice ! j, j := slice ! i]) (i + 1) (j - 1)
      else slice)"
  by pat_completeness auto
termination
  by (relation "measure (\<lambda>(slice, i, j). j - i)") auto

declare reverseFrom.simps [simp del]

definition reverseStringSlice :: "string list \<Rightarrow> string list" where
  "reverseStringSlice slice = reverseFrom slice 0 (length slice - 1)"

definition CalculateExecutionOrder ::
  "ctx \<Rightarrow> DependencyResolver \<Rightarrow> string list \<Rightarrow> error + string list" where
  "CalculateExecutionOrder ctx dr keys =
     (case ctx of
        Some cerr \<Rightarrow> Inl cerr
      | None \<Rightarrow>
          (case visitAll dr keys ({}, {}, []) of
             (Some err, st) \<Rightarrow> Inl err
           | (None, (visited, visiting, result)) \<Rightarrow> Inr (reverseStringSlice result)))"

section \<open>Collaborators and effects\<close>

text \<open>
  The HTTP client, the request factory and the result collector are collaborators
  behind interfaces; the model takes them as functions on a world \<open>'w\<close>, the state of
  everything outside the core (the network, the clock, what a collector has gathered).
  A built HTTP request is a value of a type \<open>'q\<close>. The context of a run is cancelled by
  the passing of time or by the caller, both changes of the world: an executor reads
  \<open>ctx.Err()\<close> from the current world. Durations are not modelled. What the core does
  to the world is also logged in a trace: \<open>Sent req\<close> for a call of \<open>client.Do\<close> with
  the request built from \<open>req\<close>, \<open>Printf\<close> for a line printed (format, plain arguments,
  error argument).
\<close>

datatype stream_end = EOF | ReadFailure

text \<open>A response body: the bytes the stream delivers, and how it ends after them.\<close>

datatype reader = Reader string stream_end

record Response =
  StatusCode :: int
  Body :: "reader option"

datatype event = Sent Request | Printf string "arg list" "error option"

type_synonym ('w, 'q) Factory = "Config \<Rightarrow> Request \<Rightarrow> 'w \<Rightarrow> (error + 'q) \<times> 'w"

type_synonym ('w, 'q) Client = "'q \<Rightarrow> 'w \<Rightarrow> (error + Response) \<times> 'w"

section \<open>Variable extractor (package chain)\<close>

text \<open>
  \<open>jsonExtractor\<close> is the \<open>JSONExtractor\<close> of the extractor (\<open>gjson.Get\<close> in the
  program): the extracted text and whether the path exists.
\<close>

record variableExtractor =
  jsonExtractor :: "string \<Rightarrow> string \<Rightarrow> string \<times> bool"

text \<open>
  \<open>readResponseBody\<close> returns the body or the error, and the response as the call
  leaves it. \<open>io.ReadAll\<close> through the \<open>LimitReader\<close> stops at the cap without an
  error; one more byte after the cap is \<open>ErrResponseTooLarge\<close>. After a capped read
  that succeeds, a fresh reader over the bytes read is installed.
\<close>

fun readResponseBody :: "Response option \<Rightarrow> (error + string) \<times> Response option" where
  "readResponseBody None = (Inl ErrNilResponse, None)"
| "readResponseBody (Some resp) =
     (case Body resp of
        None \<Rightarrow> (Inl ErrNilResponse, Some resp)
      | Some (Reader content e) \<Rightarrow>
          if length content < maxResponseBodySize \<and> e = ReadFailure
          then (Inl (Wrapf ''failed to read response body'' [] ErrReadResponseBody),
                Some (resp\<lparr>Body := Some (Reader [] e)\<rparr>))
          else if length content > maxResponseBodySize
          then (Inl ErrResponseTooLarge,
                Some (resp\<lparr>Body := Some (Reader (drop (maxResponseBodySize + 1) content) e)\<rparr>))
          else (Inr content, Some (resp\<lparr>Body := Some (Reader content EOF)\<rparr>)))"

definition pathNotFoundError :: "string \<Rightarrow> string \<Rightarrow> error" where
  "pathNotFoundError jsonPath variableName =
     Wrapf ''path %s not found for variable %s'' [S jsonPath, S variableName] ErrPathNotFound"

text \<open>
  The loop of \<open>ExtractVariables\<close> over the extraction map, in the order of the list,
  with the \<open>variables\<close> map built so far.
\<close>

fun extractLoop ::
  "variableExtractor \<Rightarrow> ctx \<Rightarrow> string \<Rightarrow> (string \<times> string) list \<Rightarrow> (string \<rightharpoonup> string)
     \<Rightarrow> error + (string \<rightharpoonup> string)" where
  "extractLoop ve ctx jsonString [] variables = Inr variables"
| "extractLoop ve ctx jsonString ((variableName, jsonPath) # rest) variables =
     (case ctx of
        Some cerr \<Rightarrow> Inl cerr
      | None \<Rightarrow>
          (case jsonExtractor ve jsonString jsonPath of
             (v, exists) \<Rightarrow>
               if \<not> exists then Inl (pathNotFoundError jsonPath variableName)
               else extractLoop ve ctx jsonString rest (variables(variableName \<mapsto> v))))"

definition ExtractVariables ::
  "variableExtractor \<Rightarrow> ctx \<Rightarrow> Response option \<Rightarrow> (string \<times> string) list
     \<Rightarrow> (error + (string \<rightharpoonup> string)) \<times> Response option" where
  "ExtractVariables ve ctx resp extractions =
     (case ctx of
        Some cerr \<Rightarrow> (Inl cerr, resp)
      | None \<Rightarrow>
          (case resp of
             None \<Rightarrow> (Inl ErrNilResponse, resp)
           | Some r \<Rightarrow>
               (case readResponseBody resp of
                  (Inl err, resp') \<Rightarrow> (Inl (Wrapf ''failed to read response body'' [] err), resp')
                | (Inr body, resp') \<Rightarrow>
                    (extractLoop ve ctx body extractions Map.empty, resp'))))"

section \<open>Request processor (package chain)\<close>

record ExecutionResult =
  StatusCode :: int
  Variables :: "string \<rightharpoonup> string"

text \<open>
  The \<open>DefaultRequestProcessor\<close>; its \<open>variableResolver\<close> is the variable store of the
  run, which the functions below take and return as \<open>vals\<close>. The state of a chain run
  is the world, the variable store and the trace.
\<close>

record ('w, 'q) DefaultRequestProcessor =
  factory :: "('w, 'q) Factory"
  client :: "('w, 'q) Client"
  variableExtractor :: variableExtractor

type_synonym 'w chain_state = "'w \<times> variables \<times> event list"

definition prepareRequest :: "variables \<Rightarrow> ctx \<Rightarrow> Request option \<Rightarrow> error + Request" where
  "prepareRequest vals ctx request =
     (case ctx of
        Some cerr \<Rightarrow> Inl cerr
      | None \<Rightarrow>
          (case request of
             None \<Rightarrow> Inl (Errorf ''request cannot be nil'' [])
           | Some req \<Rightarrow>
               Inr (req\<lparr>Path := Resolve vals (Path req),
                        Headers := (if length (Headers req) > 0
                                    then ResolveHeaders vals (Headers req) else Headers req),
                        JsonBody := (if isNonEmptyStringPtr (JsonBody req)
                                     then ResolveBody vals (JsonBody req) else JsonBody req),
                        FormBody := (if isNonEmptyStringPtr (FormBody req)
                                     then ResolveBody vals (FormBody req) else FormBody req),
                        RawBody := (if isNonEmptyStringPtr (RawBody req)
                                    then ResolveBody vals (RawBody req) else RawBody req)\<rparr>)))"

definition executeRequest ::
  "('w, 'q) DefaultRequestProcessor \<Rightarrow> ('w \<Rightarrow> ctx) \<Rightarrow> Config \<Rightarrow> Request \<Rightarrow> 'w \<times> event list
     \<Rightarrow> (error + Response) \<times> 'w \<times> event list" where
  "executeRequest processor ctx config req s =
     (case s of (w, tr) \<Rightarrow>
        (case ctx w of
           Some cerr \<Rightarrow> (Inl cerr, (w, tr))
         | None \<Rightarrow>
             (case factory processor config req w of
                (Inl err, w1) \<Rightarrow> (Inl (Wrapf ''failed to create request'' [] ErrCreateRequest), (w1, tr))
              | (Inr httpReq, w1) \<Rightarrow>
                  (case client processor httpReq w1 of
                     (Inl err, w2) \<Rightarrow>
                       (Inl (Wrapf ''request execution failed'' [] ErrRequestExecution),
                        (w2, tr @ [Sent req]))
                   | (Inr resp, w2) \<Rightarrow> (Inr resp, (w2, tr @ [Sent req]))))))"

text \<open>
  The loop of \<open>ProcessRequest\<close> over the extracted variables; Go leaves the order of a
  \<open>range\<close> over a map open, the model takes the names in the order of the list.
\<close>

fun storeVariables ::
  "string list \<Rightarrow> (string \<rightharpoonup> string) \<Rightarrow> variables \<times> (string \<rightharpoonup> string)
     \<Rightarrow> error option \<times> variables \<times> (string \<rightharpoonup> string)" where
  "storeVariables [] extractedVars (vals, resultVars) = (None, (vals, resultVars))"
| "storeVariables (varName # rest) extractedVars (vals, resultVars) =
     (case extractedVars varName of
        None \<Rightarrow> storeVariables rest extractedVars (vals, resultVars)
      | Some varValue \<Rightarrow>
          (case Set_var vals varName varValue of
             (Some err, vals') \<Rightarrow>
               (Some (Wrapf ''failed to set variable %s'' [S varName] err), (vals', resultVars))
           | (None, vals') \<Rightarrow>
               storeVariables rest extractedVars (vals', resultVars(varName \<mapsto> varValue))))"

definition ProcessRequest ::
  "('w, 'q) DefaultRequestProcessor \<Rightarrow> ('w \<Rightarrow> ctx) \<Rightarrow> Request option \<Rightarrow> Config \<Rightarrow> 'w chain_state
     \<Rightarrow> (error + ExecutionResult) \<times> 'w chain_state" where
  "ProcessRequest processor ctx request config s =
     (case s of (w, vals, tr) \<Rightarrow>
        (case ctx w of
           Some cerr \<Rightarrow> (Inl cerr, s)
         | None \<Rightarrow>
             (case prepareRequest vals (ctx w) request of
                Inl err \<Rightarrow> (Inl (Wrapf ''failed to prepare request'' [] err), s)
              | Inr preparedRequest \<Rightarrow>
                  (case executeRequest processor ctx config preparedRequest (w, tr) of
                     (Inl err, (w1, tr1)) \<Rightarrow> (Inl err, (w1, vals, tr1))
                   | (Inr response, (w1, tr1)) \<Rightarrow>
                       if length (Extract preparedRequest) > 0
                       then (case ExtractVariables (variableExtractor processor) (ctx w1)
                                    (Some response) (Extract preparedRequest) of
                               (Inl err, resp') \<Rightarrow>
                                 (Inl (Wrapf ''failed to extract variables'' [] ErrVariableExtraction),
                                  (w1, vals, tr1))
                             | (Inr extractedVars, resp') \<Rightarrow>
                                 (case storeVariables (map fst (Extract preparedRequest))
                                         extractedVars (vals, Map.empty) of
                                    (Some err, (vals', resultVars)) \<Rightarrow> (Inl err, (w1, vals', tr1))
                                  | (None, (vals', resultVars)) \<Rightarrow>
                                      (Inr \<lparr>StatusCode = Response.StatusCode response,
                                            Variables = resultVars\<rparr>,
                                       (w1, vals', tr1))))
                       else (Inr \<lparr>StatusCode = Response.StatusCode response,
                                  Variables = Map.empty\<rparr>,
                             (w1, vals, tr1))))))"

section \<open>Chain executor (package chain)\<close>

text \<open>
  The collector of a chain run receives the name, the method, the URL, the status
  code, the error and the extracted variables, and acts on the world. The executor
  is its request processor (built from its factory, client and variable resolver)
  and its optional collector.
\<close>

type_synonym 'w ChainResultCollector =
  "string \<Rightarrow> string \<Rightarrow> string \<Rightarrow> int \<Rightarrow> error option \<Rightarrow> (string \<rightharpoonup> string) \<Rightarrow> 'w \<Rightarrow> 'w"

record ('w, 'q) ChainExecutor =
  requestProcessor :: "('w, 'q) DefaultRequestProcessor"
  resultCollector :: "'w ChainResultCollector option"

text \<open>
  \<open>processRequestByName\<close> returns its error, the \<open>executedRequests\<close> map (a set of
  names) and the state. A name missing from the request map gives a nil request
  object, whose \<open>Path\<close> the function reads after processing: a nil dereference.
\<close>

definition processRequestByName ::
  "('w, 'q) ChainExecutor \<Rightarrow> ('w \<Rightarrow> ctx) \<Rightarrow> string \<Rightarrow> (string, Request) fmap \<Rightarrow> string set \<Rightarrow> Config
     \<Rightarrow> 'w chain_state \<Rightarrow> error option \<times> string set \<times> 'w chain_state" where
  "processRequestByName executor ctx requestName requestMap executedRequests config s =
     (if requestName \<in> executedRequests then (None, executedRequests, s)
      else (let requestObj = fmlookup requestMap requestName in
        (case ProcessRequest (requestProcessor executor) ctx requestObj config s of
           (res, (w1, vals1, tr1)) \<Rightarrow>
             (case requestObj of
                None \<Rightarrow> (Some NilDereference, executedRequests, (w1, vals1, tr1))
              | Some obj \<Rightarrow>
                  (let url = BaseUrl config @ Path obj;
                       variables = (case res of Inr r \<Rightarrow> Variables r | Inl e \<Rightarrow> Map.empty);
                       statusCode = (case res of Inr r \<Rightarrow> ExecutionResult.StatusCode r | Inl e \<Rightarrow> 0);
                       err = (case res of Inr r \<Rightarrow> None | Inl e \<Rightarrow> Some e);
                       w2 = (case resultCollector executor of
                               Some collect \<Rightarrow>
                                 collect (Name obj) (Method obj) url statusCode err variables w1
                             | None \<Rightarrow> w1)
                   in (case err of
                         Some e \<Rightarrow>
                           if IgnoreFail config
                           then (None, executedRequests,
                                 (w2, vals1,
                                  tr1 @ [Printf ''Request %s failed: %v, continuing due to ignore_fail=true''
                                           [S (Name obj)] (Some e)]))
                           else (Some (Wrapf ''failed to process request %s'' [S (Name obj)] e),
                                 executedRequests, (w2, vals1, tr1))
                       | None \<Rightarrow> (None, insert requestName executedRequests, (w2, vals1, tr1))))))))"

text \<open>The loop of \<open>executeRequestsInOrder\<close>, with the \<open>executedRequests\<close> map so far.\<close>

fun executeRequestsLoop ::
  "('w, 'q) ChainExecutor \<Rightarrow> ('w \<Rightarrow> ctx) \<Rightarrow> string list \<Rightarrow> (string, Request) fmap \<Rightarrow> string set
     \<Rightarrow> Config \<Rightarrow> 'w chain_state \<Rightarrow> error option \<times> 'w chain_state" where
  "executeRequestsLoop executor ctx [] requestMap executedRequests config s = (None, s)"
| "executeRequestsLoop executor ctx (requestName # names) requestMap executedRequests config s =
     (case ctx (fst s) of
        Some cerr \<Rightarrow> (Some cerr, s)
      | None \<Rightarrow>
          (case processRequestByName executor ctx requestName requestMap executedRequests config s of
             (Some err, executed', s') \<Rightarrow> (Some err, s')
           | (None, executed', s') \<Rightarrow>
               executeRequestsLoop executor ctx names requestMap executed' config s'))"

definition executeRequestsInOrder ::
  "('w, 'q) ChainExecutor \<Rightarrow> ('w \<Rightarrow> ctx) \<Rightarrow> string list \<Rightarrow> (string, Request) fmap \<Rightarrow> Config
     \<Rightarrow> 'w chain_state \<Rightarrow> error option \<times> 'w chain_state" where
  "executeRequestsInOrder executor ctx executionOrder requestMap config s =
     executeRequestsLoop executor ctx executionOrder requestMap {} config s"

text \<open>
  \<open>Execute\<close> of the chain executor. \<open>keys1\<close> and \<open>keys2\<close> are the orders of the two
  ranges over \<open>dr.requests\<close>, in \<open>detectCycles\<close> and in \<open>CalculateExecutionOrder\<close>.
\<close>

definition Execute ::
  "('w, 'q) ChainExecutor \<Rightarrow> ('w \<Rightarrow> ctx) \<Rightarrow> Config \<Rightarrow> string list \<Rightarrow> string list \<Rightarrow> 'w chain_state
     \<Rightarrow> error option \<times> 'w chain_state" where
  "Execute executor ctx config keys1 keys2 s =
     (case BuildRequestGraph (ctx (fst s)) NewDependencyResolver config keys1 of
        (Some err, depResolver) \<Rightarrow>
          (Some (Wrapf ''failed to build request dependency graph'' [] err), s)
      | (None, depResolver) \<Rightarrow>
          (case CalculateExecutionOrder (ctx (fst s)) depResolver keys2 of
             Inl err \<Rightarrow> (Some (Wrapf ''failed to calculate execution order'' [] err), s)
           | Inr executionOrder \<Rightarrow>
               executeRequestsInOrder executor ctx executionOrder (requests depResolver) config s))"

section \<open>Batch executor (package engine)\<close>

definition DefaultMaxWorkers :: nat where
  "DefaultMaxWorkers = 5"

text \<open>
  The collector of a batch run receives the name, the method, the URL, the status
  code and the error, and acts on the world. The field \<open>ctx\<close> of the executor gives
  \<open>ctx.Err()\<close> in a world. The state of a batch run is the world and the trace.
\<close>

type_synonym 'w ResultCollector =
  "string \<Rightarrow> string \<Rightarrow> string \<Rightarrow> int \<Rightarrow> error option \<Rightarrow> 'w \<Rightarrow> 'w"

record ('w, 'q) Executor =
  client :: "('w, 'q) Client"
  factory :: "('w, 'q) Factory"
  ctx :: "'w \<Rightarrow> error option"
  resultCollector :: "'w ResultCollector option"

type_synonym 'w batch_state = "'w \<times> event list"

definition executeHttpRequest ::
  "('w, 'q) Executor \<Rightarrow> 'q \<Rightarrow> 'w \<Rightarrow> (error + Response) \<times> 'w" where
  "executeHttpRequest executor httpReq w =
     (case client executor httpReq w of
        (Inl err, w') \<Rightarrow> (Inl (Wrapf ''request execution failed'' [] err), w')
      | (Inr resp, w') \<Rightarrow> (Inr resp, w'))"

definition executeConfigRequest ::
  "('w, 'q) Executor \<Rightarrow> Config \<Rightarrow> Request \<Rightarrow> 'w batch_state \<Rightarrow> (error + Response) \<times> 'w batch_state" where
  "executeConfigRequest executor config req s =
     (case s of (w, tr) \<Rightarrow>
        (case factory executor config req w of
           (Inl err, w1) \<Rightarrow> (Inl (Wrapf ''failed to prepare request'' [] err), (w1, tr))
         | (Inr httpReq, w1) \<Rightarrow>
             (case executeHttpRequest executor httpReq w1 of
                (res, w2) \<Rightarrow> (res, (w2, tr @ [Sent req])))))"

text \<open>The status code handed to a collector: that of the response, 0 without one.\<close>

fun statusCodeOf :: "error + Response \<Rightarrow> int" where
  "statusCodeOf (Inr resp) = Response.StatusCode resp"
| "statusCodeOf (Inl err) = 0"

fun errorOf :: "error + Response \<Rightarrow> error option" where
  "errorOf (Inr resp) = None"
| "errorOf (Inl err) = Some err"

text \<open>
  The loop of \<open>ExecuteBatchSequential\<close>. Its three-way branch is the source's: with a
  collector set, the collector is called and the loop goes on; only without a
  collector is the error of the request looked at.
\<close>

fun batchSequentialLoop ::
  "('w, 'q) Executor \<Rightarrow> Config \<Rightarrow> Request list \<Rightarrow> 'w batch_state \<Rightarrow> error option \<times> 'w batch_state" where
  "batchSequentialLoop executor config [] s = (None, s)"
| "batchSequentialLoop executor config (req # reqs) s =
     (case s of (w, tr) \<Rightarrow>
        (case ctx executor w of
           Some cerr \<Rightarrow>
             if IgnoreFail config
             then batchSequentialLoop executor config reqs
                    (w, tr @ [Printf ''Context cancelled/timeout: %v, continuing due to ignore_fail=true''
                                [] (Some cerr)])
             else (Some cerr, s)
         | None \<Rightarrow>
             (case executeConfigRequest executor config req s of
                (res, (w1, tr1)) \<Rightarrow>
                  (let url = BaseUrl config @ Path req in
                   (case resultCollector executor of
                      Some collect \<Rightarrow>
                        batchSequentialLoop executor config reqs
                          (collect (Name req) (Method req) url (statusCodeOf res) (errorOf res) w1, tr1)
                    | None \<Rightarrow>
                        (case res of
                           Inl err \<Rightarrow>
                             (let tr2 = tr1 @ [Printf ''Request %s failed: %v'' [S (Name req)] (Some err)]
                              in if IgnoreFail config
                                 then batchSequentialLoop executor config reqs (w1, tr2)
                                 else (WrapError (Some err) ''batch request failed'', (w1, tr2)))
                         | Inr resp \<Rightarrow>
                             batchSequentialLoop executor config reqs
                               (w1, tr1 @ [Printf ''Request %s succeeded: %d''
                                             [S (Name req), I (Response.StatusCode resp)] None])))))))"

definition ExecuteBatchSequential ::
  "('w, 'q) Executor \<Rightarrow> Config \<Rightarrow> 'w batch_state \<Rightarrow> error option \<times> 'w batch_state" where
  "ExecuteBatchSequential executor config s = batchSequentialLoop executor config (Request config) s"

subsection \<open>The worker pool\<close>

text \<open>
  \<open>ExecuteBatchConcurrent\<close> runs goroutines: the model is a transition system whose
  steps are the steps of the producer (\<open>sendJobs\<close>, then \<open>close(jobs)\<close>) and of the
  workers, interleaved in any order. A worker is at its \<open>select\<close> (\<open>Idle\<close>), holds a
  job it has received (\<open>Creating\<close>), holds the HTTP request built for it (\<open>Sending\<close>),
  holds the outcome before the collector is called (\<open>Reporting\<close>) and before the
  error is offered to \<open>errCh\<close> (\<open>Finishing\<close>), or has returned (\<open>Exited\<close>). The pool
  holds the requests \<open>sendJobs\<close> has still to send, the buffered \<open>jobs\<close> channel and
  whether it is closed, the one-slot \<open>errCh\<close>, the workers, the world and the trace.
  The worker context is cancelled when the executor's is (its own \<open>cancel\<close> runs
  when the function returns).
\<close>

datatype 'q worker =
    Idle
  | Creating Request
  | Sending Request 'q
  | Reporting Request "error + Response"
  | Finishing "error option"
  | Exited

record ('w, 'q) pool =
  unsent :: "Request list"
  jobs :: "Request list"
  jobsClosed :: bool
  errCh :: "error option"
  workers :: "'q worker list"
  world :: 'w
  trace :: "event list"

definition startPool :: "Config \<Rightarrow> 'w batch_state \<Rightarrow> ('w, 'q) pool" where
  "startPool config s =
     \<lparr>unsent = Request config, jobs = [], jobsClosed = False, errCh = None,
      workers = replicate (if length (Request config) < DefaultMaxWorkers
                           then length (Request config) else DefaultMaxWorkers) Idle,
      world = fst s, trace = snd s\<rparr>"

text \<open>
  The non-blocking send of a worker's error: the wrapped error enters \<open>errCh\<close> when
  the request failed, \<open>IgnoreFail\<close> is off and the slot is free.
\<close>

definition offerError :: "Config \<Rightarrow> error option \<Rightarrow> error option \<Rightarrow> error option" where
  "offerError config err slot =
     (case err of
        None \<Rightarrow> slot
      | Some e \<Rightarrow>
          if \<not> IgnoreFail config
          then (case slot of None \<Rightarrow> WrapError (Some e) ''batch request failed'' | Some e' \<Rightarrow> slot)
          else slot)"

definition collect ::
  "('w, 'q) Executor \<Rightarrow> Config \<Rightarrow> Request \<Rightarrow> error + Response \<Rightarrow> 'w \<Rightarrow> 'w" where
  "collect executor config req res w =
     (case resultCollector executor of
        Some collector \<Rightarrow>
          collector (Name req) (Method req) (BaseUrl config @ Path req) (statusCodeOf res) (errorOf res) w
      | None \<Rightarrow> w)"

inductive pool_step ::
  "('w, 'q) Executor \<Rightarrow> Config \<Rightarrow> ('w, 'q) pool \<Rightarrow> ('w, 'q) pool \<Rightarrow> bool"
  for executor :: "('w, 'q) Executor" and config :: Config where
  enqueue:
    "unsent p = req # reqs \<Longrightarrow> \<not> jobsClosed p \<Longrightarrow>
     pool_step executor config p (p\<lparr>unsent := reqs, jobs := jobs p @ [req]\<rparr>)"
| abandon:
    "unsent p \<noteq> [] \<Longrightarrow> \<not> jobsClosed p \<Longrightarrow> ctx executor (world p) \<noteq> None \<Longrightarrow>
     pool_step executor config p (p\<lparr>unsent := []\<rparr>)"
| close:
    "unsent p = [] \<Longrightarrow> \<not> jobsClosed p \<Longrightarrow>
     pool_step executor config p (p\<lparr>jobsClosed := True\<rparr>)"
| cancelled:
    "i < length (workers p) \<Longrightarrow> workers p ! i = Idle \<Longrightarrow> ctx executor (world p) \<noteq> None \<Longrightarrow>
     pool_step executor config p (p\<lparr>workers := (workers p)[i := Exited]\<rparr>)"
| drained:
    "i < length (workers p) \<Longrightarrow> workers p ! i = Idle \<Longrightarrow> jobs p = [] \<Longrightarrow> jobsClosed p \<Longrightarrow>
     pool_step executor config p (p\<lparr>workers := (workers p)[i := Exited]\<rparr>)"
| receive:
    "i < length (workers p) \<Longrightarrow> workers p ! i = Idle \<Longrightarrow> jobs p = req # reqs \<Longrightarrow>
     pool_step executor config p (p\<lparr>workers := (workers p)[i := Creating req], jobs := reqs\<rparr>)"
| create_failed:
    "i < length (workers p) \<Longrightarrow> workers p ! i = Creating req \<Longrightarrow>
     factory executor config req (world p) = (Inl err, w') \<Longrightarrow>
     pool_step executor config p
       (p\<lparr>workers := (workers p)[i := Reporting req (Inl (Wrapf ''failed to prepare request'' [] err))],
          world := w'\<rparr>)"
| create:
    "i < length (workers p) \<Longrightarrow> workers p ! i = Creating req \<Longrightarrow>
     factory executor config req (world p) = (Inr httpReq, w') \<Longrightarrow>
     pool_step executor config p (p\<lparr>workers := (workers p)[i := Sending req httpReq], world := w'\<rparr>)"
| send:
    "i < length (workers p) \<Longrightarrow> workers p ! i = Sending req httpReq \<Longrightarrow>
     executeHttpRequest executor httpReq (world p) = (res, w') \<Longrightarrow>
     pool_step executor config p
       (p\<lparr>workers := (workers p)[i := Reporting req res], world := w', trace := trace p @ [Sent req]\<rparr>)"
| report:
    "i < length (workers p) \<Longrightarrow> workers p ! i = Reporting req res \<Longrightarrow>
     pool_step executor config p
       (p\<lparr>workers := (workers p)[i := Finishing (errorOf res)],
          world := collect executor config req res (world p)\<rparr>)"
| finish:
    "i < length (workers p) \<Longrightarrow> workers p ! i = Finishing err \<Longrightarrow>
     pool_step executor config p
       (p\<lparr>workers := (workers p)[i := Idle], errCh := offerError config err (errCh p)\<rparr>)"

text \<open>
  The \<open>select\<close> after \<open>wg.Wait()\<close>: Go takes any case that is ready, and the default
  case only when none is.
\<close>

inductive finalSelect ::
  "('w, 'q) Executor \<Rightarrow> Config \<Rightarrow> ('w, 'q) pool \<Rightarrow> error option \<Rightarrow> bool"
  for executor :: "('w, 'q) Executor" and config :: Config and p :: "('w, 'q) pool" where
  context_done:
    "ctx executor (world p) = Some cerr \<Longrightarrow> finalSelect executor config p (Some cerr)"
| error_received:
    "errCh p = Some err \<Longrightarrow>
     finalSelect executor config p (if \<not> IgnoreFail config then Some err else None)"
| no_errors:
    "ctx executor (world p) = None \<Longrightarrow> errCh p = None \<Longrightarrow> finalSelect executor config p None"

text \<open>
  A run of \<open>ExecuteBatchConcurrent\<close>: from the start of the pool, steps until the
  channel is closed and every worker has returned, then the final \<open>select\<close>.
\<close>

inductive ExecuteBatchConcurrent ::
  "('w, 'q) Executor \<Rightarrow> Config \<Rightarrow> 'w batch_state \<Rightarrow> error option \<times> 'w batch_state \<Rightarrow> bool"
  for executor :: "('w, 'q) Executor" and config :: Config where
  run:
    "(pool_step executor config)\<^sup>*\<^sup>* (startPool config s) p \<Longrightarrow>
     jobsClosed p \<Longrightarrow> \<forall>wk \<in> set (workers p). wk = Exited \<Longrightarrow>
     finalSelect executor config p res \<Longrightarrow>
     ExecuteBatchConcurrent executor config s (res, (world p, trace p))"

section \<open>Properties of the configuration validation\<close>

lemma bodyCount_json_form:
  "isNonEmptyStringPtr (JsonBody req) \<Longrightarrow> isNonEmptyStringPtr (FormBody req) \<Longrightarrow> 1 < bodyCount req"
  by (simp add: bodyCount_def)

lemma validateRequest_two_bodies:
  "1 < bodyCount req \<Longrightarrow> fst (validateRequest req i ns) \<noteq> None"
  by (simp add: validateRequest_def validateRequestBody_def split: prod.splits option.splits)

lemma validateRequestsFrom_two_bodies:
  "req \<in> set reqs \<Longrightarrow> 1 < bodyCount req \<Longrightarrow> validateRequestsFrom reqs i ns \<noteq> None"
proof (induction reqs arbitrary: i ns)
  case Nil
  then show ?case by simp
next
  case (Cons r rs)
  show ?case
  proof (cases "validateRequest r i ns")
    case (Pair e ns')
    show ?thesis
    proof (cases e)
      case None
      with Pair have "req \<noteq> r"
        using validateRequest_two_bodies [OF Cons.prems(2), of i ns] by auto
      with Cons.prems have "req \<in> set rs" by simp
      with Cons.IH Cons.prems(2) Pair None show ?thesis by simp
    next
      case (Some err)
      with Pair show ?thesis by simp
    qed
  qed
qed

definition twoBodies :: Request where
  "twoBodies = \<lparr>Name = ''test1'', Method = ''POST'', Path = ''/test'', Headers = [],
     RawBody = None, FormBody = Some ''form=data'', JsonBody = Some ''json'',
     Extract = [], DependsOn = []\<rparr>"

definition twoBodiesConfig :: Config where
  "twoBodiesConfig = \<lparr>BaseUrl = ''http://example.com'', Timeout = 30, Concurrency = False,
     IgnoreFail = False, Request = [twoBodies]\<rparr>"

text \<open>
  C9. A body variant is set when its pointer is not nil and its string is not empty
  (the test of \<open>validateRequestBody\<close>, and of \<open>isNonEmptyStringPtr\<close> in the request
  processor). A configuration with a request whose JSON body and form body are both
  set is rejected by \<open>Validate\<close>, wherever the request stands in the list and
  whatever else the configuration holds.
\<close>

theorem Validate_rejects_json_and_form_body:
  assumes "req \<in> set (Request c)"
    and "isNonEmptyStringPtr (JsonBody req)"
    and "isNonEmptyStringPtr (FormBody req)"
  shows "Validate c \<noteq> None"
proof (cases "validateBaseConfig c")
  case None
  from assms(2,3) have "1 < bodyCount req" by (rule bodyCount_json_form)
  with assms(1) have "validateRequestsFrom (Request c) 0 {} \<noteq> None"
    by (rule validateRequestsFrom_two_bodies)
  with None show ?thesis by (simp add: Validate_def validateRequests_def)
next
  case (Some err)
  then show ?thesis by (simp add: Validate_def)
qed

theorem Validate_rejects_json_and_form_body_witness:
  "twoBodies \<in> set (Request twoBodiesConfig) \<and> isNonEmptyStringPtr (JsonBody twoBodies)
   \<and> isNonEmptyStringPtr (FormBody twoBodies) \<and> Validate twoBodiesConfig \<noteq> None"
  using Validate_rejects_json_and_form_body [of twoBodies twoBodiesConfig]
  by (simp add: twoBodies_def twoBodiesConfig_def)

section \<open>Properties of the variable store\<close>

lemma findClose_SomeD:
  "findClose r = Some (n, rest) \<Longrightarrow> r = n @ CHR ''}'' # rest \<and> CHR ''}'' \<notin> set n"
  by (induction r arbitrary: n rest) (auto split: if_splits option.splits)

lemma findClose_append:
  "CHR ''}'' \<notin> set n \<Longrightarrow> findClose (n @ CHR ''}'' # rest) = Some (n, rest)"
  by (induction n) auto

lemma findClose_Some_iff:
  "findClose r = Some (n, rest) \<longleftrightarrow> r = n @ CHR ''}'' # rest \<and> CHR ''}'' \<notin> set n"
  using findClose_SomeD findClose_append by blast

lemma matchAt_SomeD:
  "matchAt s = Some (m, rest) \<Longrightarrow>
     \<exists>n. n \<noteq> [] \<and> CHR ''}'' \<notin> set n \<and> m = ''${'' @ n @ ''}'' \<and> s = m @ rest"
proof (cases s rule: matchAt.cases)
  case (1 a b r)
  assume "matchAt s = Some (m, rest)"
  with 1 obtain n where ab: "a = CHR ''$''" "b = CHR ''{''"
    and fc: "findClose r = Some (n, rest)" and n: "n \<noteq> []" and m: "m = a # b # n @ ''}''"
    by (auto split: if_splits option.splits)
  from fc have "r = n @ CHR ''}'' # rest" "CHR ''}'' \<notin> set n"
    using findClose_SomeD by blast+
  with 1 ab n m show ?thesis
    by auto
qed simp_all

lemma matchAt_reference:
  "n \<noteq> [] \<Longrightarrow> CHR ''}'' \<notin> set n \<Longrightarrow>
     matchAt ((''${'' @ n @ ''}'') @ rest) = Some (''${'' @ n @ ''}'', rest)"
  by (simp add: findClose_append)

lemma matchAt_Some_iff:
  "matchAt s = Some (m, rest) \<longleftrightarrow>
     (\<exists>n. n \<noteq> [] \<and> CHR ''}'' \<notin> set n \<and> m = ''${'' @ n @ ''}'' \<and> s = m @ rest)"
  using matchAt_SomeD matchAt_reference by blast

lemma MatchString_iff_suffix:
  "MatchString s \<longleftrightarrow> (\<exists>pre suf. s = pre @ suf \<and> matchAt suf \<noteq> None)"
proof (induction s)
  case Nil
  then show ?case by simp
next
  case (Cons c cs)
  show ?case
  proof
    assume "MatchString (c # cs)"
    then consider "matchAt (c # cs) \<noteq> None" | "MatchString cs" by auto
    then show "\<exists>pre suf. c # cs = pre @ suf \<and> matchAt suf \<noteq> None"
    proof cases
      case 1
      then have "c # cs = [] @ (c # cs) \<and> matchAt (c # cs) \<noteq> None" by simp
      then show ?thesis by blast
    next
      case 2
      with Cons.IH obtain pre suf where "cs = pre @ suf" "matchAt suf \<noteq> None" by blast
      then have "c # cs = (c # pre) @ suf \<and> matchAt suf \<noteq> None" by simp
      then show ?thesis by blast
    qed
  next
    assume "\<exists>pre suf. c # cs = pre @ suf \<and> matchAt suf \<noteq> None"
    then obtain pre suf where ps: "c # cs = pre @ suf" and m: "matchAt suf \<noteq> None" by blast
    show "MatchString (c # cs)"
    proof (cases pre)
      case Nil
      with ps have "suf = c # cs" by simp
      with m show ?thesis by simp
    next
      case (Cons p pre')
      with ps have "cs = pre' @ suf" by simp
      with m Cons.IH have "MatchString cs" by blast
      then show ?thesis by simp
    qed
  qed
qed

lemma MatchString_iff:
  "MatchString s \<longleftrightarrow>
     (\<exists>pre n post. s = pre @ ''${'' @ n @ ''}'' @ post \<and> n \<noteq> [] \<and> CHR ''}'' \<notin> set n)"
proof
  assume "MatchString s"
  then obtain pre suf m rest where s: "s = pre @ suf" and "matchAt suf = Some (m, rest)"
    by (auto simp: MatchString_iff_suffix)
  then obtain n where "n \<noteq> []" "CHR ''}'' \<notin> set n" "suf = (''${'' @ n @ ''}'') @ rest"
    unfolding matchAt_Some_iff by blast
  with s have "s = pre @ ''${'' @ n @ ''}'' @ rest \<and> n \<noteq> [] \<and> CHR ''}'' \<notin> set n"
    by simp
  then show "\<exists>pre n post. s = pre @ ''${'' @ n @ ''}'' @ post \<and> n \<noteq> [] \<and> CHR ''}'' \<notin> set n"
    by blast
next
  assume "\<exists>pre n post. s = pre @ ''${'' @ n @ ''}'' @ post \<and> n \<noteq> [] \<and> CHR ''}'' \<notin> set n"
  then obtain pre n post where s: "s = pre @ ''${'' @ n @ ''}'' @ post"
    and n: "n \<noteq> []" "CHR ''}'' \<notin> set n" by blast
  from n have "matchAt ((''${'' @ n @ ''}'') @ post) = Some (''${'' @ n @ ''}'', post)"
    unfolding matchAt_Some_iff by blast
  with s have "s = pre @ ((''${'' @ n @ ''}'') @ post) \<and> matchAt ((''${'' @ n @ ''}'') @ post) \<noteq> None"
    by simp
  then show "MatchString s" unfolding MatchString_iff_suffix by blast
qed

lemma ReplaceAllStringFunc_no_match:
  "\<not> MatchString s \<Longrightarrow> ReplaceAllStringFunc repl s = s"
  by (induction s) (auto split: option.splits)

text \<open>
  A reference after a text without a dollar sign is replaced, and the replacement
  goes on in the text after it.
\<close>

lemma matchAt_not_dollar: "a \<noteq> CHR ''$'' \<Longrightarrow> matchAt (a # s) = None"
  by (cases s) simp_all

lemma ReplaceAllStringFunc_reference:
  assumes "CHR ''$'' \<notin> set pre" and "n \<noteq> []" and "CHR ''}'' \<notin> set n"
  shows "ReplaceAllStringFunc repl (pre @ (''${'' @ n @ ''}'') @ post)
           = pre @ repl (''${'' @ n @ ''}'') @ ReplaceAllStringFunc repl post"
  using assms(1)
proof (induction pre)
  case Nil
  from matchAt_reference [OF assms(2,3), of post]
  have "matchAt (CHR ''$'' # CHR ''{'' # n @ CHR ''}'' # post) = Some (''${'' @ n @ ''}'', post)"
    by simp
  then show ?case by (simp del: matchAt.simps)
next
  case (Cons c pre)
  then have "matchAt (c # pre @ (''${'' @ n @ ''}'') @ post) = None"
    by (intro matchAt_not_dollar) auto
  with Cons show ?case by (simp del: matchAt.simps)
qed

lemma resolveRecursively_top:
  "resolveRecursively vals input 0 = (ReplaceAllStringFunc (\<lambda>m. resolveVariable vals m 0) input, None)"
  by (simp add: maxVariableRecursionDepth_def)

lemma Resolve_eq:
  "Resolve vals input = ReplaceAllStringFunc (\<lambda>m. resolveVariable vals m 0) input"
  by (simp add: Resolve_def resolveRecursively_top del: resolveRecursively.simps)

text \<open>
  C10. \<open>Resolve\<close> is the identity on a text without a reference: when no substring
  of the input matches the pattern (\<open>MatchString\<close>, characterised by
  \<open>MatchString_iff\<close>), the input comes back unchanged, whatever the variable
  store holds. The empty string is such an input.
\<close>

theorem Resolve_identity_without_reference:
  "\<not> MatchString input \<Longrightarrow> Resolve vals input = input"
  by (simp add: Resolve_eq ReplaceAllStringFunc_no_match)

theorem Resolve_identity_without_reference_witness:
  "\<not> MatchString ''Hello {name} $x ${}'' \<and>
   Resolve [''name'' \<mapsto> ''value''] ''Hello {name} $x ${}'' = ''Hello {name} $x ${}''"
  using Resolve_identity_without_reference [of "''Hello {name} $x ${}''" "[''name'' \<mapsto> ''value'']"]
  by simp

text \<open>
  \<open>resolveVariable\<close> by cases: an unknown identifier, a known one below depth 4, and
  a known one at depth 4 or more, whose value would be resolved at the depth limit.
\<close>

lemma resolveVariable_unknown:
  "vals (extractVariableName m) = None \<Longrightarrow> resolveVariable vals m depth = m"
  by simp

lemma resolveVariable_known:
  "vals (extractVariableName m) = Some v \<Longrightarrow> depth < 4 \<Longrightarrow>
   resolveVariable vals m depth =
     ReplaceAllStringFunc (\<lambda>m'. resolveVariable vals m' (depth + 1)) (take 1000 v)"
  by (simp add: maxVariableRecursionDepth_def truncateIfNeeded_def truncateValue_def
      maxVariableValueLength_def)

lemma resolveVariable_too_deep:
  "vals (extractVariableName m) = Some v \<Longrightarrow> 4 \<le> depth \<Longrightarrow> resolveVariable vals m depth = m"
  by (simp add: maxVariableRecursionDepth_def)

text \<open>
  C4. The depth limit of \<open>Resolve\<close>. \<open>resolveRecursively\<close> returns
  \<open>ErrMaxRecursionDepth\<close> at depth 5, and \<open>Resolve\<close> has a branch that returns its
  input when the call at depth 0 fails, as its comment says (``If an error occurs
  during resolution, the original input is returned''). But \<open>resolveVariable\<close> takes
  the error of the nested call and returns the reference in its place, so the call at
  depth 0 fails for no store and no input, and the branch of \<open>Resolve\<close> is never
  taken. With \<open>a\<close> bound to \<^verbatim>\<open>x${a}\<close>, resolving \<^verbatim>\<open>${a}\<close> reaches depth 5, where the
  error is raised and the reference at depth 4 stays as it is; \<open>Resolve\<close> returns the
  partly expanded \<^verbatim>\<open>xxxx${a}\<close>, not its input. With \<open>b\<close> bound to \<open>v\<close> as well,
  \<^verbatim>\<open>${b}-${a}\<close> becomes \<^verbatim>\<open>v-xxxx${a}\<close>: the other references of the input are
  replaced too.
\<close>

theorem Resolve_depth_exceeded_keeps_expansion:
  "snd (resolveRecursively vals input 0) = None
   \<and> resolveRecursively [''a'' \<mapsto> ''x${a}''] ''x${a}'' 5 = (''x${a}'', Some ErrMaxRecursionDepth)
   \<and> resolveVariable [''a'' \<mapsto> ''x${a}''] ''${a}'' 4 = ''${a}''
   \<and> Resolve [''a'' \<mapsto> ''x${a}''] ''${a}'' = ''xxxx${a}''
   \<and> Resolve [''a'' \<mapsto> ''x${a}''] ''${a}'' \<noteq> ''${a}''
   \<and> Resolve [''a'' \<mapsto> ''x${a}'', ''b'' \<mapsto> ''v''] ''${b}-${a}'' = ''v-xxxx${a}''
   \<and> Resolve [''a'' \<mapsto> ''x${a}'', ''b'' \<mapsto> ''v''] ''${b}-${a}'' \<noteq> ''${b}-${a}''"
  by (simp add: Resolve_def maxVariableRecursionDepth_def truncateIfNeeded_def
      maxVariableValueLength_def extractVariableName_def)

section \<open>Properties of the dependency resolver\<close>

subsection \<open>The reversal\<close>

lemma reverseFrom_length: "length (reverseFrom xs i j) = length xs"
proof (induction xs i j rule: reverseFrom.induct)
  case (1 slice i j)
  show ?case
  proof (cases "i < j")
    case True
    with 1 show ?thesis by (subst reverseFrom.simps) simp
  next
    case False
    then show ?thesis by (subst reverseFrom.simps) simp
  qed
qed

lemma reverseFrom_nth:
  "j < length xs \<Longrightarrow> k < length xs \<Longrightarrow>
   reverseFrom xs i j ! k = (if i \<le> k \<and> k \<le> j then xs ! (i + j - k) else xs ! k)"
proof (induction xs i j arbitrary: k rule: reverseFrom.induct)
  case (1 slice i j)
  show ?case
  proof (cases "i < j")
    case True
    let ?s = "slice[i := slice ! j, j := slice ! i]"
    from True 1 have eq: "reverseFrom slice i j ! k =
        (if i + 1 \<le> k \<and> k \<le> j - 1 then ?s ! (i + 1 + (j - 1) - k) else ?s ! k)"
      by (subst reverseFrom.simps) simp
    consider "k = i" | "k = j" | "i < k" "k < j" | "k < i" | "j < k" by linarith
    then show ?thesis
    proof cases
      case 1
      with True have "\<not> i + 1 \<le> k" "i \<noteq> j" "i + j - k = j" by linarith+
      with 1 True "1.prems" eq show ?thesis by simp
    next
      case 2
      with True have "\<not> k \<le> j - 1" by linarith
      with 2 True "1.prems" eq show ?thesis by simp
    next
      case 3
      then have "i + 1 + (j - 1) - k = i + j - k" "i + j - k \<noteq> i" "i + j - k \<noteq> j"
        "i + 1 \<le> k" "k \<le> j - 1" "i \<le> k" "k \<le> j" "k \<noteq> i" "k \<noteq> j" by linarith+
      with 3 True "1.prems" eq show ?thesis by simp
    next
      case 4
      with True have "\<not> i + 1 \<le> k" "\<not> i \<le> k" "k \<noteq> i" "k \<noteq> j" by linarith+
      with True "1.prems" eq show ?thesis by simp
    next
      case 5
      with True have "\<not> k \<le> j - 1" "\<not> k \<le> j" "k \<noteq> i" "k \<noteq> j" by linarith+
      with True "1.prems" eq show ?thesis by simp
    qed
  next
    case False
    then have "reverseFrom slice i j = slice" by (subst reverseFrom.simps) simp
    moreover from False have "i \<le> k \<and> k \<le> j \<Longrightarrow> i + j - k = k" by linarith
    ultimately show ?thesis by auto
  qed
qed

lemma reverseStringSlice_rev: "reverseStringSlice xs = rev xs"
proof (rule nth_equalityI)
  show "length (reverseStringSlice xs) = length (rev xs)"
    by (simp add: reverseStringSlice_def reverseFrom_length)
next
  fix k assume "k < length (reverseStringSlice xs)"
  then have k: "k < length xs" by (simp add: reverseStringSlice_def reverseFrom_length)
  then have "length xs - 1 < length xs" "k \<le> length xs - 1" by linarith+
  with k have "reverseFrom xs 0 (length xs - 1) ! k = xs ! (0 + (length xs - 1) - k)"
    by (simp add: reverseFrom_nth)
  moreover from k have "0 + (length xs - 1) - k = length xs - Suc k" by linarith
  ultimately show "reverseStringSlice xs ! k = rev xs ! k"
    using k by (simp add: reverseStringSlice_def rev_nth)
qed

subsection \<open>The dependency graph\<close>

text \<open>
  \<open>parentRel\<close> is the parent relation the resolver holds in its \<open>dependsOn\<close> map;
  \<open>dependsOnEdges\<close> is the parent relation the configuration states, and
  \<open>dependenciesKnown\<close> says that every parent named is the name of a request.
\<close>

definition parentRel :: "DependencyResolver \<Rightarrow> (string \<times> string) set" where
  "parentRel dr = {(x, d). fmlookup (dependsOn dr) x = Some d}"

lemma parentRel_iff: "(x, d) \<in> parentRel dr \<longleftrightarrow> fmlookup (dependsOn dr) x = Some d"
  by (simp add: parentRel_def)

lemma visit_acyclic:
  assumes ac: "acyclic (parentRel dr)"
  shows "(\<forall>w\<in>W. (w, name) \<in> (parentRel dr)\<^sup>+) \<Longrightarrow> set res = V \<Longrightarrow> distinct res \<Longrightarrow> V \<inter> W = {} \<Longrightarrow>
     \<exists>V' res'. visit dr name (V, W, res) = (None, (V', W, res')) \<and> set res' = V' \<and> distinct res'
        \<and> V' \<inter> W = {} \<and> name \<in> V' \<and> V \<subseteq> V' \<and> V' \<subseteq> V \<union> (parentRel dr)\<^sup>* `` {name}"
  using ac
proof (induction dr name "(V, W, res)" arbitrary: V W res rule: visit.induct)
  case (1 dr name V W res)
  let ?R = "parentRel dr"
  have notW: "name \<notin> W"
  proof
    assume "name \<in> W"
    with "1.prems"(1) have "(name, name) \<in> ?R\<^sup>+" by blast
    with "1.prems"(5) show False by (simp add: acyclic_def)
  qed
  show ?case
  proof (cases "name \<in> V")
    case True
    with notW "1.prems" show ?thesis by (subst visit.simps) auto
  next
    case notV: False
    show ?thesis
    proof (cases "fmlookup (dependsOn dr) name")
      case None
      with notW notV "1.prems" show ?thesis
        by (subst visit.simps) auto
    next
      case (Some dep)
      then have nd: "(name, dep) \<in> ?R" by (simp add: parentRel_iff)
      have path: "\<forall>w\<in>insert name W. (w, dep) \<in> ?R\<^sup>+"
      proof
        fix w assume "w \<in> insert name W"
        then consider "w = name" | "w \<in> W" by blast
        then show "(w, dep) \<in> ?R\<^sup>+"
        proof cases
          case 1
          with nd show ?thesis by blast
        next
          case 2
          with "1.prems"(1) have "(w, name) \<in> ?R\<^sup>+" by blast
          with nd show ?thesis by (meson trancl_into_trancl)
        qed
      qed
      from "1.prems"(4) notV have disj: "V \<inter> insert name W = {}" by blast
      from "1.hyps" [OF notW notV Some path "1.prems"(2) "1.prems"(3) disj "1.prems"(5)]
      obtain V2 res2 where v: "visit dr dep (V, insert name W, res) = (None, (V2, insert name W, res2))"
        and r2: "set res2 = V2" "distinct res2" and d2: "V2 \<inter> insert name W = {}"
        and dep: "dep \<in> V2" and sub: "V \<subseteq> V2" and sup: "V2 \<subseteq> V \<union> ?R\<^sup>* `` {dep}"
        by blast
      have "name \<notin> ?R\<^sup>* `` {dep}"
      proof
        assume "name \<in> ?R\<^sup>* `` {dep}"
        then have "(dep, name) \<in> ?R\<^sup>*" by simp
        with nd have "(name, name) \<in> ?R\<^sup>+" by (rule rtrancl_into_trancl2)
        with "1.prems"(5) show False by (simp add: acyclic_def)
      qed
      with sup notV have n2: "name \<notin> V2" by blast
      have "?R\<^sup>* `` {dep} \<subseteq> ?R\<^sup>* `` {name}"
        using nd by (auto intro: converse_rtrancl_into_rtrancl)
      with sup have sup': "insert name V2 \<subseteq> V \<union> ?R\<^sup>* `` {name}" by auto
      have eq: "visit dr name (V, W, res) = (None, (insert name V2, W, res2 @ [name]))"
        using notW notV Some v by (subst visit.simps) auto
      from r2 n2 d2 sub sup' notW show ?thesis
        unfolding eq by auto
    qed
  qed
qed


lemma hasCycle_acyclic:
  "acyclic (parentRel dr) \<Longrightarrow> W \<inter> (parentRel dr)\<^sup>* `` {name} = {} \<Longrightarrow>
   hasCycle dr name W = (False, W)"
proof (induction dr name W rule: hasCycle.induct)
  case (1 dr name W)
  let ?R = "parentRel dr"
  from "1.prems"(2) have notW: "name \<notin> W" by blast
  show ?case
  proof (cases "fmlookup (dependsOn dr) name")
    case None
    with notW show ?thesis by (subst hasCycle.simps) simp
  next
    case (Some dep)
    then have nd: "(name, dep) \<in> ?R" by (simp add: parentRel_iff)
    have "name \<notin> ?R\<^sup>* `` {dep}"
    proof
      assume "name \<in> ?R\<^sup>* `` {dep}"
      then have "(dep, name) \<in> ?R\<^sup>*" by simp
      with nd have "(name, name) \<in> ?R\<^sup>+" by (rule rtrancl_into_trancl2)
      with "1.prems"(1) show False by (simp add: acyclic_def)
    qed
    moreover have "?R\<^sup>* `` {dep} \<subseteq> ?R\<^sup>* `` {name}"
      using nd by (auto intro: converse_rtrancl_into_rtrancl)
    ultimately have "insert name W \<inter> ?R\<^sup>* `` {dep} = {}"
      using "1.prems"(2) by blast
    with "1.IH" [OF notW Some "1.prems"(1)]
    have "hasCycle dr dep (insert name W) = (False, insert name W)" by simp
    with notW Some show ?thesis by (subst hasCycle.simps) simp
  qed
qed

lemma detectCyclesLoop_acyclic:
  "acyclic (parentRel dr) \<Longrightarrow> detectCyclesLoop dr keys = None"
  by (induction keys) (simp_all add: hasCycle_acyclic)

lemma visitAll_acyclic:
  assumes ac: "acyclic (parentRel dr)"
  shows "set res = V \<Longrightarrow> distinct res \<Longrightarrow>
     \<exists>V' res'. visitAll dr keys (V, {}, res) = (None, (V', {}, res')) \<and> set res' = V' \<and> distinct res'
        \<and> V \<union> set keys \<subseteq> V' \<and> V' \<subseteq> V \<union> (parentRel dr)\<^sup>* `` set keys"
proof (induction keys arbitrary: V res)
  case Nil
  then show ?case by simp
next
  case (Cons k ks)
  from visit_acyclic [OF ac, of "{}" k res V] Cons.prems
  obtain V1 res1 where v: "visit dr k (V, {}, res) = (None, (V1, {}, res1))"
    and r1: "set res1 = V1" "distinct res1" and k: "k \<in> V1" and sub: "V \<subseteq> V1"
    and sup: "V1 \<subseteq> V \<union> (parentRel dr)\<^sup>* `` {k}"
    by auto
  from Cons.IH [OF r1]
  obtain V2 res2 where va: "visitAll dr ks (V1, {}, res1) = (None, (V2, {}, res2))"
    and r2: "set res2 = V2" "distinct res2" and sub2: "V1 \<union> set ks \<subseteq> V2"
    and sup2: "V2 \<subseteq> V1 \<union> (parentRel dr)\<^sup>* `` set ks"
    by blast
  from v va have "visitAll dr (k # ks) (V, {}, res) = (None, (V2, {}, res2))" by simp
  moreover from k sub sub2 have "V \<union> set (k # ks) \<subseteq> V2" by auto
  moreover from sup sup2 have "V2 \<subseteq> V \<union> (parentRel dr)\<^sup>* `` set (k # ks)" by auto
  ultimately show ?case using r2 by blast
qed

lemma rtrancl_image_subset: "Range R \<subseteq> K \<Longrightarrow> R\<^sup>* `` K \<subseteq> K"
proof
  fix y assume r: "Range R \<subseteq> K" and "y \<in> R\<^sup>* `` K"
  then obtain k where k: "k \<in> K" and ky: "(k, y) \<in> R\<^sup>*" by blast
  from ky have "y = k \<or> y \<in> Range R"
    by (induction rule: rtrancl_induct) blast+
  with k r show "y \<in> K" by blast
qed

lemma CalculateExecutionOrder_acyclic:
  assumes "acyclic (parentRel dr)" and "Range (parentRel dr) \<subseteq> set keys"
  shows "\<exists>l. CalculateExecutionOrder None dr keys = Inr l \<and> distinct l \<and> set l = set keys"
proof -
  from visitAll_acyclic [OF assms(1), of "[]" "{}" keys]
  obtain V' res' where va: "visitAll dr keys ({}, {}, []) = (None, (V', {}, res'))"
    and r: "set res' = V'" "distinct res'" and sub: "set keys \<subseteq> V'"
    and sup: "V' \<subseteq> (parentRel dr)\<^sup>* `` set keys"
    by auto
  from sup rtrancl_image_subset [OF assms(2)] sub have "V' = set keys" by blast
  with va r show ?thesis
    by (simp add: CalculateExecutionOrder_def reverseStringSlice_rev)
qed


definition dependsOnEdges :: "Config \<Rightarrow> (string \<times> string) set" where
  "dependsOnEdges config =
     {(Name r, DependsOn r) | r. r \<in> set (Request config) \<and> DependsOn r \<noteq> []}"

definition dependenciesKnown :: "Config \<Rightarrow> bool" where
  "dependenciesKnown config =
     (\<forall>r \<in> set (Request config). DependsOn r \<noteq> [] \<longrightarrow> DependsOn r \<in> Name ` set (Request config))"

lemma indexRequests_fields:
  "fmdom' (requests (indexRequests dr reqs)) = fmdom' (requests dr) \<union> Name ` set reqs"
  "dependsOn (indexRequests dr reqs) = dependsOn dr"
  "dependencies (indexRequests dr reqs) = dependencies dr"
  by (induction reqs arbitrary: dr) auto

lemma recordDependency_fields:
  "requests (recordDependency dr req) = requests dr"
  "fmlookup (dependsOn (recordDependency dr req)) x =
     (if x = Name req then Some (DependsOn req) else fmlookup (dependsOn dr) x)"
  by (auto simp: recordDependency_def)

lemma buildLoop_requests:
  "requests (snd (buildDependencyMapsLoop dr reqs)) = requests dr"
  by (induction reqs arbitrary: dr) (auto simp: recordDependency_fields split: option.splits)

lemma buildLoop_unknown:
  "\<exists>r \<in> set reqs. DependsOn r \<noteq> [] \<and> DependsOn r \<notin> fmdom' (requests dr) \<Longrightarrow>
   \<exists>r \<in> set reqs. fst (buildDependencyMapsLoop dr reqs) = Some (unknownDependencyError r)"
proof (induction reqs arbitrary: dr)
  case Nil
  then show ?case by simp
next
  case (Cons q qs)
  show ?case
  proof (cases "DependsOn q \<noteq> [] \<and> DependsOn q \<notin> fmdom' (requests dr)")
    case True
    then have "fmlookup (requests dr) (DependsOn q) = None"
      by (meson fmdom'I option.exhaust)
    with True show ?thesis by auto
  next
    case False
    with Cons.prems have ex: "\<exists>r \<in> set qs. DependsOn r \<noteq> [] \<and> DependsOn r \<notin> fmdom' (requests dr)"
      by auto
    show ?thesis
    proof (cases "DependsOn q = []")
      case True
      with Cons.IH [OF ex] show ?thesis by auto
    next
      case nonempty: False
      with False obtain r where r: "fmlookup (requests dr) (DependsOn q) = Some r"
        by (meson fmdom'_notI option.exhaust)
      from ex have "\<exists>r \<in> set qs. DependsOn r \<noteq> [] \<and> DependsOn r \<notin> fmdom' (requests (recordDependency dr q))"
        by (simp add: recordDependency_fields)
      from Cons.IH [OF this] nonempty r show ?thesis by auto
    qed
  qed
qed

lemma buildLoop_known:
  "\<forall>r \<in> set reqs. DependsOn r \<noteq> [] \<longrightarrow> DependsOn r \<in> fmdom' (requests dr) \<Longrightarrow>
   fst (buildDependencyMapsLoop dr reqs) = None"
proof (induction reqs arbitrary: dr)
  case Nil
  then show ?case by simp
next
  case (Cons q qs)
  from Cons.prems have "\<forall>r \<in> set qs. DependsOn r \<noteq> [] \<longrightarrow> DependsOn r \<in> fmdom' (requests (recordDependency dr q))"
    by (simp add: recordDependency_fields)
  from Cons.IH [OF this] Cons.IH [of dr] Cons.prems show ?case
    by (auto split: option.splits dest: fmdom'_notI)
qed

lemma buildLoop_parentRel_subset:
  "fst (buildDependencyMapsLoop dr reqs) = None \<Longrightarrow>
   parentRel (snd (buildDependencyMapsLoop dr reqs))
     \<subseteq> parentRel dr \<union> {(Name r, DependsOn r) | r. r \<in> set reqs \<and> DependsOn r \<noteq> []}"
proof (induction reqs arbitrary: dr)
  case Nil
  then show ?case by simp
next
  case (Cons q qs)
  show ?case
  proof (cases "DependsOn q = []")
    case True
    with Cons.prems Cons.IH [of dr] show ?thesis by auto
  next
    case False
    with Cons.prems obtain r where r: "fmlookup (requests dr) (DependsOn q) = Some r"
      by (auto split: option.splits)
    with False Cons.prems have "fst (buildDependencyMapsLoop (recordDependency dr q) qs) = None"
      by simp
    from Cons.IH [OF this]
    have "parentRel (snd (buildDependencyMapsLoop (recordDependency dr q) qs))
      \<subseteq> parentRel (recordDependency dr q) \<union> {(Name r, DependsOn r) | r. r \<in> set qs \<and> DependsOn r \<noteq> []}" .
    moreover have "parentRel (recordDependency dr q) \<subseteq> parentRel dr \<union> {(Name q, DependsOn q)}"
      by (auto simp: parentRel_iff recordDependency_fields split: if_splits)
    ultimately show ?thesis using False r by auto
  qed
qed

lemma buildLoop_lookup_other:
  "x \<notin> Name ` set reqs \<Longrightarrow>
   fmlookup (dependsOn (snd (buildDependencyMapsLoop dr reqs))) x = fmlookup (dependsOn dr) x"
  by (induction reqs arbitrary: dr) (auto simp: recordDependency_fields split: option.splits)

lemma buildLoop_parentRel_distinct:
  "fst (buildDependencyMapsLoop dr reqs) = None \<Longrightarrow> distinct (map Name reqs) \<Longrightarrow>
   {(Name r, DependsOn r) | r. r \<in> set reqs \<and> DependsOn r \<noteq> []}
     \<subseteq> parentRel (snd (buildDependencyMapsLoop dr reqs))"
proof (induction reqs arbitrary: dr)
  case Nil
  then show ?case by simp
next
  case (Cons q qs)
  show ?case
  proof (cases "DependsOn q = []")
    case True
    with Cons.prems Cons.IH [of dr] show ?thesis by auto
  next
    case False
    with Cons.prems obtain r where r: "fmlookup (requests dr) (DependsOn q) = Some r"
      by (auto split: option.splits)
    with False Cons.prems have ok: "fst (buildDependencyMapsLoop (recordDependency dr q) qs) = None"
      by simp
    from Cons.prems(2) have dq: "Name q \<notin> Name ` set qs" and d: "distinct (map Name qs)" by auto
    have "fmlookup (dependsOn (snd (buildDependencyMapsLoop (recordDependency dr q) qs))) (Name q)
        = Some (DependsOn q)"
      by (simp add: buildLoop_lookup_other [OF dq] recordDependency_fields)
    then have "(Name q, DependsOn q) \<in> parentRel (snd (buildDependencyMapsLoop (recordDependency dr q) qs))"
      by (simp add: parentRel_iff)
    with Cons.IH [OF ok d] False r show ?thesis by auto
  qed
qed


lemma single_valued_parentRel: "single_valued (parentRel dr)"
  by (auto simp: single_valued_def parentRel_iff)

text \<open>A node on a closed parent chain never reaches a request without a parent.\<close>

definition rootless :: "DependencyResolver \<Rightarrow> string \<Rightarrow> bool" where
  "rootless dr x = (\<forall>y. (x, y) \<in> (parentRel dr)\<^sup>* \<longrightarrow> y \<in> Domain (parentRel dr))"

lemma rootless_parent:
  "rootless dr x \<Longrightarrow> \<exists>d. fmlookup (dependsOn dr) x = Some d \<and> rootless dr d"
proof -
  assume r: "rootless dr x"
  then have "x \<in> Domain (parentRel dr)" by (auto simp: rootless_def)
  then obtain d where d: "(x, d) \<in> parentRel dr" by blast
  have "rootless dr d"
    unfolding rootless_def
  proof (intro allI impI)
    fix y assume "(d, y) \<in> (parentRel dr)\<^sup>*"
    with d have "(x, y) \<in> (parentRel dr)\<^sup>*" by (rule converse_rtrancl_into_rtrancl)
    with r show "y \<in> Domain (parentRel dr)" by (simp add: rootless_def)
  qed
  with d show ?thesis by (auto simp: parentRel_iff)
qed

lemma closed_chain_rootless:
  assumes "(x, x) \<in> (parentRel dr)\<^sup>+"
  shows "rootless dr x"
  unfolding rootless_def
proof (intro allI impI)
  let ?R = "parentRel dr"
  fix y assume "(x, y) \<in> ?R\<^sup>*"
  then have "(y, x) \<in> ?R\<^sup>+"
  proof (induction rule: rtrancl_induct)
    case base
    from assms show ?case .
  next
    case (step y z)
    from step.IH obtain z' where "(y, z') \<in> ?R" "(z', x) \<in> ?R\<^sup>*"
      by (blast dest: tranclD)
    with step.hyps(2) single_valued_parentRel [of dr] have zx: "(z, x) \<in> ?R\<^sup>*"
      by (auto simp: single_valued_def)
    show ?case
    proof (cases "z = x")
      case True
      with assms show ?thesis by simp
    next
      case False
      with zx show ?thesis by (auto dest: rtranclD)
    qed
  qed
  then show "y \<in> Domain ?R" by (blast dest: tranclD)
qed

lemma hasCycle_rootless: "rootless dr name \<Longrightarrow> fst (hasCycle dr name W)"
proof (induction dr name W rule: hasCycle.induct)
  case (1 dr name W)
  show ?case
  proof (cases "name \<in> W")
    case True
    then show ?thesis by (subst hasCycle.simps) simp
  next
    case False
    from rootless_parent [OF "1.prems"] obtain d
      where d: "fmlookup (dependsOn dr) name = Some d" and r: "rootless dr d" by blast
    from "1.IH" [OF False d r] have "fst (hasCycle dr d (insert name W))" .
    with False d show ?thesis
      by (subst hasCycle.simps) (auto split: prod.splits)
  qed
qed

lemma detectCyclesLoop_rootless:
  "x \<in> set keys \<Longrightarrow> rootless dr x \<Longrightarrow> \<exists>n. detectCyclesLoop dr keys = Some (cyclicError n)"
  by (induction keys) (auto simp: hasCycle_rootless)

lemma visit_error_cyclic:
  "visit dr name st = (Some e, st') \<Longrightarrow> \<exists>n. e = cyclicError n"
proof (induction dr name st arbitrary: st' rule: visit.induct)
  case (1 dr name visited visiting result)
  from "1.prems" show ?case
    by (subst (asm) visit.simps) (auto split: if_splits option.splits prod.splits dest: "1.IH")
qed

lemma visit_success_rooted:
  "visit dr name (V, W, res) = (None, (V', W', res')) \<Longrightarrow> \<forall>v \<in> V. \<not> rootless dr v \<Longrightarrow>
   (\<forall>v \<in> V'. \<not> rootless dr v) \<and> name \<in> V'"
proof (induction dr name "(V, W, res)" arbitrary: V W res V' W' res' rule: visit.induct)
  case (1 dr name V W res)
  show ?case
  proof (cases "name \<in> W")
    case True
    with "1.prems"(1) show ?thesis by (subst (asm) visit.simps) simp
  next
    case notW: False
    show ?thesis
    proof (cases "name \<in> V")
      case True
      with notW "1.prems" show ?thesis by (subst (asm) visit.simps) auto
    next
      case notV: False
      show ?thesis
      proof (cases "fmlookup (dependsOn dr) name")
        case None
        then have "name \<notin> Domain (parentRel dr)" by (auto simp: parentRel_iff)
        then have "\<not> rootless dr name" by (auto simp: rootless_def)
        with None notW notV "1.prems" show ?thesis
          by (subst (asm) visit.simps) auto
      next
        case (Some dep)
        with notW notV "1.prems"(1) obtain V2 W2 res2
          where v: "visit dr dep (V, insert name W, res) = (None, (V2, W2, res2))"
            and V': "V' = insert name V2"
          by (subst (asm) visit.simps) (auto split: option.splits prod.splits)
        from "1.hyps" [OF notW notV Some v "1.prems"(2)]
        have inv: "\<forall>v \<in> V2. \<not> rootless dr v" and dep: "dep \<in> V2" by blast+
        have "\<not> rootless dr name"
        proof
          assume "rootless dr name"
          from rootless_parent [OF this] Some have "rootless dr dep" by simp
          with inv dep show False by blast
        qed
        with inv V' show ?thesis by simp
      qed
    qed
  qed
qed

lemma visitAll_rootless:
  "x \<in> set keys \<Longrightarrow> rootless dr x \<Longrightarrow> \<forall>v \<in> V. \<not> rootless dr v \<Longrightarrow>
   \<exists>n st. visitAll dr keys (V, W, res) = (Some (cyclicError n), st)"
proof (induction keys arbitrary: V W res)
  case Nil
  then show ?case by simp
next
  case (Cons k ks)
  obtain e V1 W1 res1 where v: "visit dr k (V, W, res) = (e, (V1, W1, res1))"
    by (metis prod_cases3 surj_pair)
  show ?case
  proof (cases e)
    case (Some err)
    with v visit_error_cyclic [of dr k "(V, W, res)" err "(V1, W1, res1)"] show ?thesis
      by auto
  next
    case None
    with v visit_success_rooted [of dr k V W res V1 W1 res1] Cons.prems(3)
    have inv: "\<forall>v \<in> V1. \<not> rootless dr v" and k: "k \<in> V1" by blast+
    with Cons.prems(1,2) have "x \<in> set ks" by auto
    from Cons.IH [OF this Cons.prems(2) inv, of W1 res1] v None show ?thesis by simp
  qed
qed

lemma CalculateExecutionOrder_rootless:
  "x \<in> set keys \<Longrightarrow> rootless dr x \<Longrightarrow>
   \<exists>n. CalculateExecutionOrder None dr keys = Inl (cyclicError n)"
  using visitAll_rootless [of x keys dr "{}" "{}" "[]"]
  by (auto simp: CalculateExecutionOrder_def)


lemma BuildRequestGraph_eq:
  "BuildRequestGraph None NewDependencyResolver config keys =
     (case buildDependencyMapsLoop (indexRequests NewDependencyResolver (Request config)) (Request config) of
        (Some err, dr') \<Rightarrow> (Some err, dr')
      | (None, dr') \<Rightarrow> (detectCyclesLoop dr' keys, dr'))"
  by (simp add: BuildRequestGraph_def buildDependencyMaps_def detectCycles_def
      split: prod.splits option.splits)

lemma indexed_keys:
  "fmdom' (requests (indexRequests NewDependencyResolver reqs)) = Name ` set reqs"
  by (simp add: indexRequests_fields NewDependencyResolver_def)

lemma indexed_parentRel: "parentRel (indexRequests NewDependencyResolver reqs) = {}"
  by (simp add: parentRel_def indexRequests_fields NewDependencyResolver_def)

lemma built_graph:
  assumes "dependenciesKnown config"
  defines "dr \<equiv> snd (buildDependencyMapsLoop (indexRequests NewDependencyResolver (Request config)) (Request config))"
  shows "fst (buildDependencyMapsLoop (indexRequests NewDependencyResolver (Request config)) (Request config)) = None"
    and "fmdom' (requests dr) = Name ` set (Request config)"
    and "parentRel dr \<subseteq> dependsOnEdges config"
    and "distinct (map Name (Request config)) \<Longrightarrow> parentRel dr = dependsOnEdges config"
proof -
  let ?dr0 = "indexRequests NewDependencyResolver (Request config)"
  from assms(1) show ok: "fst (buildDependencyMapsLoop ?dr0 (Request config)) = None"
    by (intro buildLoop_known) (simp add: dependenciesKnown_def indexed_keys)
  show "fmdom' (requests dr) = Name ` set (Request config)"
    by (simp add: dr_def buildLoop_requests indexed_keys)
  from buildLoop_parentRel_subset [OF ok] show sub: "parentRel dr \<subseteq> dependsOnEdges config"
    by (simp add: dr_def indexed_parentRel dependsOnEdges_def)
  assume "distinct (map Name (Request config))"
  from buildLoop_parentRel_distinct [OF ok this] sub show "parentRel dr = dependsOnEdges config"
    by (auto simp: dr_def dependsOnEdges_def)
qed

text \<open>
  C5. For a configuration in which every non-empty \<open>dependsOn\<close> names a request of
  the configuration (\<open>dependenciesKnown\<close>) and the parent edges form no closed chain
  (\<open>acyclic\<close>), with a live context: the graph is built without an error, whatever
  the order of the range in \<open>detectCycles\<close>, and \<open>CalculateExecutionOrder\<close> succeeds,
  whatever the order of its own range over the requests; its result holds every
  request name, each exactly once.
\<close>

theorem CalculateExecutionOrder_permutation:
  assumes "dependenciesKnown config"
    and "acyclic (dependsOnEdges config)"
    and "BuildRequestGraph None NewDependencyResolver config keys1 = (err, dr)"
    and "iteration_of keys dr"
  shows "err = None \<and>
         (\<exists>l. CalculateExecutionOrder None dr keys = Inr l
            \<and> distinct l \<and> set l = Name ` set (Request config))"
proof -
  let ?loop = "buildDependencyMapsLoop (indexRequests NewDependencyResolver (Request config)) (Request config)"
  note g = built_graph [OF assms(1)]
  from assms(2) g(3) have ac: "acyclic (parentRel (snd ?loop))"
    by (rule acyclic_subset)
  from g(1) assms(3) have dr: "dr = snd ?loop" and err: "err = detectCyclesLoop (snd ?loop) keys1"
    by (auto simp: BuildRequestGraph_eq split: prod.splits option.splits)
  from err ac have "err = None"
    by (simp add: detectCyclesLoop_acyclic)
  moreover from assms(4) g(2) dr have keys: "set keys = Name ` set (Request config)"
    by (simp add: iteration_of_def)
  have "Range (dependsOnEdges config) \<subseteq> Name ` set (Request config)"
    using assms(1) by (auto simp: dependsOnEdges_def dependenciesKnown_def)
  with g(3) keys dr have "Range (parentRel dr) \<subseteq> set keys"
    by blast
  from CalculateExecutionOrder_acyclic [OF _ this] ac dr keys
  have "\<exists>l. CalculateExecutionOrder None dr keys = Inr l \<and> distinct l \<and> set l = Name ` set (Request config)"
    by simp
  ultimately show ?thesis by simp
qed


lemma distinct_three:
  assumes "distinct keys" and "set keys = {a, b, c}" and "a \<noteq> b" "a \<noteq> c" "b \<noteq> c"
  shows "keys \<in> {[a, b, c], [a, c, b], [b, a, c], [b, c, a], [c, a, b], [c, b, a]}"
proof -
  from assms have "length keys = 3"
    using distinct_card [of keys] by simp
  then obtain x y z where k: "keys = [x, y, z]"
    by (auto simp: eval_nat_numeral length_Suc_conv)
  with assms(2) have "x \<in> {a, b, c}" "y \<in> {a, b, c}" "z \<in> {a, b, c}"
    by auto
  with k assms(1) show ?thesis
    by auto
qed

definition chainRequest :: "string \<Rightarrow> string \<Rightarrow> Request" where
  "chainRequest name dep = \<lparr>Name = name, Method = ''GET'', Path = ''/'' @ name, Headers = [],
     RawBody = None, FormBody = None, JsonBody = None, Extract = [], DependsOn = dep\<rparr>"

definition chainConfig :: Config where
  "chainConfig = \<lparr>BaseUrl = ''http://example.com'', Timeout = 30, Concurrency = False,
     IgnoreFail = False,
     Request = [chainRequest ''root'' [], chainRequest ''A1'' ''root'', chainRequest ''A2'' ''A1'']\<rparr>"

lemma three_chain_graph:
  assumes "map (\<lambda>r. (Name r, DependsOn r)) (Request config) =
             [(''root'', []), (''A1'', ''root''), (''A2'', ''A1'')]"
  shows "dependenciesKnown config"
    and "acyclic (dependsOnEdges config)"
    and "dependsOn (snd (buildDependencyMapsLoop
            (indexRequests NewDependencyResolver (Request config)) (Request config)))
          = fmupd ''A2'' ''A1'' (fmupd ''A1'' ''root'' fmempty)"
proof -
  from assms obtain r0 r1 r2 where reqs: "Request config = [r0, r1, r2]"
    and n: "Name r0 = ''root''" "Name r1 = ''A1''" "Name r2 = ''A2''"
    and d: "DependsOn r0 = []" "DependsOn r1 = ''root''" "DependsOn r2 = ''A1''"
    by auto
  from reqs n d show "dependenciesKnown config"
    by (simp add: dependenciesKnown_def)
  have "dependsOnEdges config \<subseteq> {(''A1'', ''root''), (''A2'', ''A1'')}"
    using reqs n d by (auto simp: dependsOnEdges_def)
  moreover have "acyclic {(''A1'', ''root''), (''A2'', ''A1'')}"
    by (rule acyclicI_order [where f = "\<lambda>n. if n = ''root'' then 0 else if n = ''A1'' then 1 else (2::nat)"])
      auto
  ultimately show "acyclic (dependsOnEdges config)"
    by (rule acyclic_subset [rotated])
  from reqs n d show "dependsOn (snd (buildDependencyMapsLoop
            (indexRequests NewDependencyResolver (Request config)) (Request config)))
          = fmupd ''A2'' ''A1'' (fmupd ''A1'' ''root'' fmempty)"
    by (simp add: NewDependencyResolver_def recordDependency_def)
qed

text \<open>
  C1. For the three requests \<open>root\<close>, \<open>A1\<close> (depending on \<open>root\<close>) and \<open>A2\<close>
  (depending on \<open>A1\<close>), whatever their other fields, with a live context: the graph
  is built without an error and \<open>CalculateExecutionOrder\<close> returns exactly
  \<open>[A2, A1, root]\<close>, for every order in which the two ranges over the request map
  may visit the three names. The list before the reversal has the parents first;
  \<open>reverseStringSlice\<close> is list reversal (\<open>reverseStringSlice_rev\<close>).
\<close>

theorem CalculateExecutionOrder_three_chain:
  assumes "map (\<lambda>r. (Name r, DependsOn r)) (Request config) =
             [(''root'', []), (''A1'', ''root''), (''A2'', ''A1'')]"
    and "BuildRequestGraph None NewDependencyResolver config keys1 = (err, dr)"
    and "iteration_of keys dr"
  shows "err = None \<and> CalculateExecutionOrder None dr keys = Inr [''A2'', ''A1'', ''root'']"
proof -
  let ?loop = "buildDependencyMapsLoop (indexRequests NewDependencyResolver (Request config)) (Request config)"
  note t = three_chain_graph [OF assms(1)]
  note g = built_graph [OF t(1)]
  from t(2) g(3) have ac: "acyclic (parentRel (snd ?loop))"
    by (rule acyclic_subset)
  from g(1) assms(2) have dr: "dr = snd ?loop" and err: "err = detectCyclesLoop (snd ?loop) keys1"
    by (auto simp: BuildRequestGraph_eq split: prod.splits option.splits)
  from err ac have "err = None"
    by (simp add: detectCyclesLoop_acyclic)
  moreover have names: "Name ` set (Request config) = {''root'', ''A1'', ''A2''}"
  proof -
    have "Name ` set (Request config) = fst ` set (map (\<lambda>r. (Name r, DependsOn r)) (Request config))"
      by (simp add: image_image)
    then show ?thesis by (simp add: assms(1))
  qed
  from assms(3) g(2) dr names have "distinct keys" "set keys = {''root'', ''A1'', ''A2''}"
    by (simp_all add: iteration_of_def)
  then have "keys \<in> {[''root'', ''A1'', ''A2''], [''root'', ''A2'', ''A1''], [''A1'', ''root'', ''A2''],
      [''A1'', ''A2'', ''root''], [''A2'', ''root'', ''A1''], [''A2'', ''A1'', ''root'']}"
    by (rule distinct_three) simp_all
  moreover from dr t(3) have "dependsOn dr = fmupd ''A2'' ''A1'' (fmupd ''A1'' ''root'' fmempty)"
    by simp
  ultimately show ?thesis
    by (auto simp: CalculateExecutionOrder_def visit.simps reverseStringSlice_rev)
qed


lemmas build_eval =
  BuildRequestGraph_def buildDependencyMaps_def detectCycles_def hasCycle.simps
  NewDependencyResolver_def recordDependency_def iteration_of_def

theorem CalculateExecutionOrder_three_chain_witness:
  "map (\<lambda>r. (Name r, DependsOn r)) (Request chainConfig) =
      [(''root'', []), (''A1'', ''root''), (''A2'', ''A1'')]
   \<and> iteration_of [''A1'', ''A2'', ''root'']
        (snd (BuildRequestGraph None NewDependencyResolver chainConfig [''A2'', ''root'', ''A1'']))
   \<and> fst (BuildRequestGraph None NewDependencyResolver chainConfig [''A2'', ''root'', ''A1'']) = None
   \<and> CalculateExecutionOrder None
        (snd (BuildRequestGraph None NewDependencyResolver chainConfig [''A2'', ''root'', ''A1'']))
        [''A1'', ''A2'', ''root''] = Inr [''A2'', ''A1'', ''root'']"
proof -
  let ?b = "BuildRequestGraph None NewDependencyResolver chainConfig [''A2'', ''root'', ''A1'']"
  have c: "map (\<lambda>r. (Name r, DependsOn r)) (Request chainConfig) =
      [(''root'', []), (''A1'', ''root''), (''A2'', ''A1'')]"
    by (simp add: chainConfig_def chainRequest_def)
  have i: "iteration_of [''A1'', ''A2'', ''root''] (snd ?b)"
    by (auto simp: build_eval chainConfig_def chainRequest_def)
  have b: "?b = (fst ?b, snd ?b)"
    by simp
  from CalculateExecutionOrder_three_chain [OF c b i] c i show ?thesis
    by simp
qed

definition branchesConfig :: Config where
  "branchesConfig = \<lparr>BaseUrl = ''http://example.com'', Timeout = 30, Concurrency = False,
     IgnoreFail = False,
     Request = [chainRequest ''root'' [], chainRequest ''A1'' ''root'', chainRequest ''A2'' ''A1'',
       chainRequest ''B1'' ''root'', chainRequest ''B2'' ''B1'', chainRequest ''edge'' ''A2'']\<rparr>"

theorem CalculateExecutionOrder_permutation_witness:
  "dependenciesKnown branchesConfig \<and> acyclic (dependsOnEdges branchesConfig)
   \<and> iteration_of [''B2'', ''edge'', ''A1'', ''root'', ''B1'', ''A2'']
        (snd (BuildRequestGraph None NewDependencyResolver branchesConfig
           [''edge'', ''B2'', ''B1'', ''A2'', ''A1'', ''root'']))
   \<and> fst (BuildRequestGraph None NewDependencyResolver branchesConfig
           [''edge'', ''B2'', ''B1'', ''A2'', ''A1'', ''root'']) = None
   \<and> (\<exists>l. CalculateExecutionOrder None
         (snd (BuildRequestGraph None NewDependencyResolver branchesConfig
           [''edge'', ''B2'', ''B1'', ''A2'', ''A1'', ''root'']))
         [''B2'', ''edge'', ''A1'', ''root'', ''B1'', ''A2''] = Inr l
        \<and> distinct l \<and> set l = Name ` set (Request branchesConfig))"
proof -
  let ?b = "BuildRequestGraph None NewDependencyResolver branchesConfig
           [''edge'', ''B2'', ''B1'', ''A2'', ''A1'', ''root'']"
  have k: "dependenciesKnown branchesConfig"
    by (simp add: dependenciesKnown_def branchesConfig_def chainRequest_def)
  have "dependsOnEdges branchesConfig \<subseteq> {(''A1'', ''root''), (''A2'', ''A1''), (''B1'', ''root''),
      (''B2'', ''B1''), (''edge'', ''A2'')}"
    by (auto simp: dependsOnEdges_def branchesConfig_def chainRequest_def)
  moreover have "acyclic {(''A1'', ''root''), (''A2'', ''A1''), (''B1'', ''root''),
      (''B2'', ''B1''), (''edge'', ''A2'')}"
    by (rule acyclicI_order [where f = "\<lambda>n. if n = ''root'' then 0 else if n = ''A1'' \<or> n = ''B1'' then 1
          else if n = ''A2'' \<or> n = ''B2'' then 2 else (3::nat)"]) auto
  ultimately have a: "acyclic (dependsOnEdges branchesConfig)"
    by (rule acyclic_subset [rotated])
  have i: "iteration_of [''B2'', ''edge'', ''A1'', ''root'', ''B1'', ''A2''] (snd ?b)"
    by (auto simp: build_eval branchesConfig_def chainRequest_def)
  have b: "?b = (fst ?b, snd ?b)"
    by simp
  from CalculateExecutionOrder_permutation [OF k a b i] k a i show ?thesis
    by simp
qed

section \<open>Properties of the variable extractor\<close>

lemma extractLoop_Cons:
  "extractLoop ve None body ((n, p) # rest) vars =
     (if \<not> snd (jsonExtractor ve body p) then Inl (pathNotFoundError p n)
      else extractLoop ve None body rest (vars(n \<mapsto> fst (jsonExtractor ve body p))))"
  by (simp split: prod.splits)

lemma extractLoop_missing:
  "\<exists>(n, p) \<in> set xs. \<not> snd (jsonExtractor ve body p) \<Longrightarrow>
   \<exists>n p. (n, p) \<in> set xs \<and> \<not> snd (jsonExtractor ve body p)
      \<and> extractLoop ve None body xs vars = Inl (pathNotFoundError p n)"
proof (induction xs arbitrary: vars)
  case Nil
  then show ?case by simp
next
  case (Cons x xs)
  obtain n p where x: "x = (n, p)" by (cases x)
  show ?case
  proof (cases "snd (jsonExtractor ve body p)")
    case True
    with Cons.prems x have "\<exists>(n, p) \<in> set xs. \<not> snd (jsonExtractor ve body p)" by auto
    from Cons.IH [OF this, of "vars(n \<mapsto> fst (jsonExtractor ve body p))"]
    obtain n' p' where "(n', p') \<in> set xs" "\<not> snd (jsonExtractor ve body p')"
      "extractLoop ve None body xs (vars(n \<mapsto> fst (jsonExtractor ve body p))) = Inl (pathNotFoundError p' n')"
      by blast
    with True x have "(n', p') \<in> set (x # xs) \<and> \<not> snd (jsonExtractor ve body p')
      \<and> extractLoop ve None body (x # xs) vars = Inl (pathNotFoundError p' n')"
      by (simp add: extractLoop_Cons del: extractLoop.simps)
    then show ?thesis by blast
  next
    case False
    with x have "(n, p) \<in> set (x # xs) \<and> \<not> snd (jsonExtractor ve body p)
      \<and> extractLoop ve None body (x # xs) vars = Inl (pathNotFoundError p n)"
      by (simp add: extractLoop_Cons del: extractLoop.simps)
    then show ?thesis by blast
  qed
qed

lemma extractLoop_complete:
  "\<forall>(n, p) \<in> set xs. snd (jsonExtractor ve body p) \<Longrightarrow> distinct (map fst xs) \<Longrightarrow>
   extractLoop ve None body xs vars =
     Inr (\<lambda>name. case map_of xs name of
                    None \<Rightarrow> vars name
                  | Some p \<Rightarrow> Some (fst (jsonExtractor ve body p)))"
proof (induction xs arbitrary: vars)
  case Nil
  then show ?case by simp
next
  case (Cons x xs)
  obtain n p where x: "x = (n, p)" by (cases x)
  from Cons.prems x have ex: "snd (jsonExtractor ve body p)"
    and rest: "\<forall>(n, p) \<in> set xs. snd (jsonExtractor ve body p)"
    and d: "distinct (map fst xs)" and n: "map_of xs n = None"
    by (auto simp: map_of_eq_None_iff)
  have "(\<lambda>name. case map_of xs name of
                    None \<Rightarrow> (vars(n \<mapsto> fst (jsonExtractor ve body p))) name
                  | Some p \<Rightarrow> Some (fst (jsonExtractor ve body p)))
      = (\<lambda>name. case map_of (x # xs) name of
                    None \<Rightarrow> vars name
                  | Some p \<Rightarrow> Some (fst (jsonExtractor ve body p)))"
    using n x by (auto split: option.splits)
  moreover have "extractLoop ve None body (x # xs) vars
      = extractLoop ve None body xs (vars(n \<mapsto> fst (jsonExtractor ve body p)))"
    using ex x by (simp add: extractLoop_Cons del: extractLoop.simps)
  ultimately show ?case
    using Cons.IH [OF rest d, of "vars(n \<mapsto> fst (jsonExtractor ve body p))"] by simp
qed

text \<open>
  C7. \<open>ExtractVariables\<close> on a response whose body is read within the cap, with a
  live context, for every extractor, body and extraction map (in any order of
  iteration): when some path of the map does not exist in the body, the call returns
  a \<open>PathNotFound\<close> error for such a pair and no variables, also when other paths of
  the map exist; when every path exists, it returns the map of every variable name to
  the text extracted at its path (the names of a Go map are distinct).
\<close>

theorem ExtractVariables_all_or_nothing:
  assumes "readResponseBody (Some resp) = (Inr body, resp')"
  shows "((\<exists>(n, p) \<in> set extractions. \<not> snd (jsonExtractor ve body p)) \<longrightarrow>
            (\<exists>n p. (n, p) \<in> set extractions \<and> \<not> snd (jsonExtractor ve body p)
               \<and> fst (ExtractVariables ve None (Some resp) extractions) = Inl (pathNotFoundError p n)))
       \<and> ((\<forall>(n, p) \<in> set extractions. snd (jsonExtractor ve body p)) \<and> distinct (map fst extractions) \<longrightarrow>
            fst (ExtractVariables ve None (Some resp) extractions) =
              Inr (\<lambda>name. case map_of extractions name of
                             None \<Rightarrow> None
                           | Some p \<Rightarrow> Some (fst (jsonExtractor ve body p))))"
proof -
  have eq: "fst (ExtractVariables ve None (Some resp) extractions)
      = extractLoop ve None body extractions Map.empty"
    using assms by (simp add: ExtractVariables_def del: readResponseBody.simps)
  show ?thesis
    unfolding eq
    using extractLoop_missing [of extractions ve body Map.empty]
      extractLoop_complete [of extractions ve body Map.empty]
    by auto
qed

definition sampleJson :: string where
  "sampleJson = ''{name:test,age:30}''"

text \<open>A stand-in for the JSON library on the sample document.\<close>

definition sampleExtractor :: variableExtractor where
  "sampleExtractor = \<lparr>jsonExtractor = (\<lambda>json path.
      if json = sampleJson \<and> path = ''name'' then (''test'', True)
      else if json = sampleJson \<and> path = ''age'' then (''30'', True)
      else ([], False))\<rparr>"

definition sampleResponse :: Response where
  "sampleResponse = \<lparr>Response.StatusCode = 200, Body = Some (Reader sampleJson EOF)\<rparr>"


theorem ExtractVariables_all_or_nothing_witness:
  "readResponseBody (Some sampleResponse) = (Inr sampleJson, Some sampleResponse)
   \<and> (\<exists>(n, p) \<in> set [(''username'', ''name''), (''x'', ''missing.path'')].
         \<not> snd (jsonExtractor sampleExtractor sampleJson p))
   \<and> fst (ExtractVariables sampleExtractor None (Some sampleResponse)
         [(''username'', ''name''), (''x'', ''missing.path'')])
       = Inl (pathNotFoundError ''missing.path'' ''x'')
   \<and> snd (jsonExtractor sampleExtractor sampleJson ''name'')
   \<and> snd (jsonExtractor sampleExtractor sampleJson ''age'')
   \<and> distinct (map fst [(''username'', ''name''), (''userAge'', ''age'')])
   \<and> fst (ExtractVariables sampleExtractor None (Some sampleResponse)
         [(''username'', ''name''), (''userAge'', ''age'')])
       = Inr [''username'' \<mapsto> ''test'', ''userAge'' \<mapsto> ''30'']"
proof -
  have r: "readResponseBody (Some sampleResponse) = (Inr sampleJson, Some sampleResponse)"
    by (simp add: sampleResponse_def sampleJson_def maxResponseBodySize_def)
  have m: "\<exists>(n, p) \<in> set [(''username'', ''name''), (''x'', ''missing.path'')].
         \<not> snd (jsonExtractor sampleExtractor sampleJson p)"
    by (simp add: sampleExtractor_def)
  have a: "\<forall>(n, p) \<in> set [(''username'', ''name''), (''userAge'', ''age'')].
         snd (jsonExtractor sampleExtractor sampleJson p)"
    by (simp add: sampleExtractor_def)
  have d: "distinct (map fst [(''username'', ''name''), (''userAge'', ''age'')])"
    by simp
  from ExtractVariables_all_or_nothing [OF r, of "[(''username'', ''name''), (''x'', ''missing.path'')]" sampleExtractor] m
  have 1: "fst (ExtractVariables sampleExtractor None (Some sampleResponse)
         [(''username'', ''name''), (''x'', ''missing.path'')])
       = Inl (pathNotFoundError ''missing.path'' ''x'')"
    by (auto simp: sampleExtractor_def)
  from ExtractVariables_all_or_nothing [OF r, of "[(''username'', ''name''), (''userAge'', ''age'')]" sampleExtractor] a d
  have "fst (ExtractVariables sampleExtractor None (Some sampleResponse)
         [(''username'', ''name''), (''userAge'', ''age'')])
       = Inr (\<lambda>name. case map_of [(''username'', ''name''), (''userAge'', ''age'')] name of
                             None \<Rightarrow> None
                           | Some p \<Rightarrow> Some (fst (jsonExtractor sampleExtractor sampleJson p)))"
    by blast
  also have "(\<lambda>name. case map_of [(''username'', ''name''), (''userAge'', ''age'')] name of
                             None \<Rightarrow> None
                           | Some p \<Rightarrow> Some (fst (jsonExtractor sampleExtractor sampleJson p)))
      = [''username'' \<mapsto> ''test'', ''userAge'' \<mapsto> ''30'']"
    by (auto simp: sampleExtractor_def)
  finally have 2: "fst (ExtractVariables sampleExtractor None (Some sampleResponse)
         [(''username'', ''name''), (''userAge'', ''age'')])
       = Inr [''username'' \<mapsto> ''test'', ''userAge'' \<mapsto> ''30'']" .
  from a have "snd (jsonExtractor sampleExtractor sampleJson ''name'')"
    "snd (jsonExtractor sampleExtractor sampleJson ''age'')"
    by simp_all
  with r m d 1 2 show ?thesis
    by blast
qed

section \<open>Properties of the chain executor\<close>

lemma BuildRequestGraph_unknown:
  assumes "\<exists>r \<in> set (Request config). DependsOn r \<noteq> [] \<and> DependsOn r \<notin> Name ` set (Request config)"
  shows "\<exists>r \<in> set (Request config).
           fst (BuildRequestGraph None NewDependencyResolver config ksa) = Some (unknownDependencyError r)"
proof -
  let ?dr0 = "indexRequests NewDependencyResolver (Request config)"
  from assms have "\<exists>r \<in> set (Request config). DependsOn r \<noteq> [] \<and> DependsOn r \<notin> fmdom' (requests ?dr0)"
    by (simp add: indexed_keys)
  from buildLoop_unknown [OF this] obtain r where "r \<in> set (Request config)"
    "fst (buildDependencyMapsLoop ?dr0 (Request config)) = Some (unknownDependencyError r)"
    by blast
  then show ?thesis
    by (auto simp: BuildRequestGraph_eq split: prod.splits)
qed

lemma BuildRequestGraph_cyclic:
  assumes "distinct (map Name (Request config))" and "dependenciesKnown config"
    and "(x, x) \<in> (dependsOnEdges config)\<^sup>+"
    and "iteration_of ksa (indexRequests NewDependencyResolver (Request config))"
    and "iteration_of ksb (indexRequests NewDependencyResolver (Request config))"
  shows "\<exists>n. fst (BuildRequestGraph None NewDependencyResolver config ksa) = Some (cyclicError n)"
    and "\<exists>n. CalculateExecutionOrder None
            (snd (BuildRequestGraph None NewDependencyResolver config ksa)) ksb = Inl (cyclicError n)"
proof -
  let ?loop = "buildDependencyMapsLoop (indexRequests NewDependencyResolver (Request config)) (Request config)"
  note g = built_graph [OF assms(2)]
  from g(4) [OF assms(1)] assms(3) have "(x, x) \<in> (parentRel (snd ?loop))\<^sup>+"
    by simp
  then have r: "rootless (snd ?loop) x"
    by (rule closed_chain_rootless)
  from assms(3) have "x \<in> Domain (dependsOnEdges config)"
    by (blast dest: tranclD)
  then have "x \<in> Name ` set (Request config)"
    by (auto simp: dependsOnEdges_def)
  with assms(4,5) have k: "x \<in> set ksa" "x \<in> set ksb"
    by (simp_all add: iteration_of_def indexed_keys)
  from g(1) have b: "BuildRequestGraph None NewDependencyResolver config ksa
      = (detectCyclesLoop (snd ?loop) ksa, snd ?loop)"
    by (auto simp: BuildRequestGraph_eq split: prod.splits option.splits)
  from detectCyclesLoop_rootless [OF k(1) r] b
  show "\<exists>n. fst (BuildRequestGraph None NewDependencyResolver config ksa) = Some (cyclicError n)"
    by simp
  from CalculateExecutionOrder_rootless [OF k(2) r] b
  show "\<exists>n. CalculateExecutionOrder None
            (snd (BuildRequestGraph None NewDependencyResolver config ksa)) ksb = Inl (cyclicError n)"
    by simp
qed

lemma Execute_build_failure:
  "cx (fst s) = None \<Longrightarrow> fst (BuildRequestGraph None NewDependencyResolver config ksa) = Some e \<Longrightarrow>
   Execute executor cx config ksa ksb s
     = (Some (Wrapf ''failed to build request dependency graph'' [] e), s)"
  by (cases "BuildRequestGraph None NewDependencyResolver config ksa") (simp add: Execute_def)

text \<open>
  C6. With a live context, for every executor and state of the run. A non-empty
  \<open>dependsOn\<close> that names no request of the configuration makes \<open>BuildRequestGraph\<close>
  fail with an error that is \<open>ErrUnknownDependency\<close>. A closed parent chain, in a
  configuration with distinct names whose dependencies are all known, makes
  \<open>BuildRequestGraph\<close> fail with an error that is \<open>ErrCyclicDependency\<close>, and
  \<open>CalculateExecutionOrder\<close> on the maps it has built fails with such an error too
  (\<open>ksa\<close> and \<open>ksb\<close> are the orders of the two ranges over the request map). In both
  cases \<open>Execute\<close> returns the wrapped error and leaves the state of the run as it
  was: nothing sent, no variable stored, the world untouched.
\<close>

theorem Execute_structural_failure:
  assumes "cx (fst s) = None"
  shows "((\<exists>r \<in> set (Request config). DependsOn r \<noteq> [] \<and> DependsOn r \<notin> Name ` set (Request config)) \<longrightarrow>
           (\<exists>e. fst (BuildRequestGraph None NewDependencyResolver config ksa) = Some e
              \<and> errorsIs e ErrUnknownDependency
              \<and> Execute executor cx config ksa ksb s
                   = (Some (Wrapf ''failed to build request dependency graph'' [] e), s)))
       \<and> (distinct (map Name (Request config)) \<and> dependenciesKnown config
            \<and> (\<exists>x. (x, x) \<in> (dependsOnEdges config)\<^sup>+)
            \<and> iteration_of ksa (indexRequests NewDependencyResolver (Request config))
            \<and> iteration_of ksb (indexRequests NewDependencyResolver (Request config)) \<longrightarrow>
           (\<exists>e. fst (BuildRequestGraph None NewDependencyResolver config ksa) = Some e
              \<and> errorsIs e ErrCyclicDependency
              \<and> Execute executor cx config ksa ksb s
                   = (Some (Wrapf ''failed to build request dependency graph'' [] e), s))
           \<and> (\<exists>e. CalculateExecutionOrder None
                    (snd (BuildRequestGraph None NewDependencyResolver config ksa)) ksb = Inl e
                 \<and> errorsIs e ErrCyclicDependency))"
proof (intro conjI impI)
  assume "\<exists>r \<in> set (Request config). DependsOn r \<noteq> [] \<and> DependsOn r \<notin> Name ` set (Request config)"
  from BuildRequestGraph_unknown [OF this, of ksa] obtain r
    where b: "fst (BuildRequestGraph None NewDependencyResolver config ksa) = Some (unknownDependencyError r)"
    by blast
  have "errorsIs (unknownDependencyError r) ErrUnknownDependency"
    by (simp add: unknownDependencyError_def)
  with b Execute_build_failure [of cx s config ksa _ executor ksb, OF assms b]
  show "\<exists>e. fst (BuildRequestGraph None NewDependencyResolver config ksa) = Some e
      \<and> errorsIs e ErrUnknownDependency
      \<and> Execute executor cx config ksa ksb s
           = (Some (Wrapf ''failed to build request dependency graph'' [] e), s)"
    by blast
next
  assume a: "distinct (map Name (Request config)) \<and> dependenciesKnown config
            \<and> (\<exists>x. (x, x) \<in> (dependsOnEdges config)\<^sup>+)
            \<and> iteration_of ksa (indexRequests NewDependencyResolver (Request config))
            \<and> iteration_of ksb (indexRequests NewDependencyResolver (Request config))"
  then obtain x where x: "(x, x) \<in> (dependsOnEdges config)\<^sup>+" by blast
  from a have h: "distinct (map Name (Request config))" "dependenciesKnown config"
    "iteration_of ksa (indexRequests NewDependencyResolver (Request config))"
    "iteration_of ksb (indexRequests NewDependencyResolver (Request config))"
    by blast+
  have c: "errorsIs (cyclicError n) ErrCyclicDependency" for n
    by (simp add: cyclicError_def)
  from BuildRequestGraph_cyclic(1) [OF h(1,2) x h(3,4)] obtain n
    where b: "fst (BuildRequestGraph None NewDependencyResolver config ksa) = Some (cyclicError n)"
    by blast
  with c Execute_build_failure [of cx s config ksa _ executor ksb, OF assms b]
  show "\<exists>e. fst (BuildRequestGraph None NewDependencyResolver config ksa) = Some e
      \<and> errorsIs e ErrCyclicDependency
      \<and> Execute executor cx config ksa ksb s
           = (Some (Wrapf ''failed to build request dependency graph'' [] e), s)"
    by blast
  from BuildRequestGraph_cyclic(2) [OF h(1,2) x h(3,4)] c
  show "\<exists>e. CalculateExecutionOrder None
            (snd (BuildRequestGraph None NewDependencyResolver config ksa)) ksb = Inl e
         \<and> errorsIs e ErrCyclicDependency"
    by blast
qed


definition plainFactory :: "(nat, string) Factory" where
  "plainFactory config req w = (Inr (BaseUrl config @ Path req), w)"

definition okClient :: "(nat, string) Client" where
  "okClient httpReq w =
     (Inr \<lparr>Response.StatusCode = 200, Body = Some (Reader sampleJson EOF)\<rparr>, Suc w)"

definition liveContext :: "nat \<Rightarrow> error option" where
  "liveContext w = None"

definition sampleChainExecutor :: "(nat, string) ChainExecutor" where
  "sampleChainExecutor =
     \<lparr>requestProcessor =
        \<lparr>DefaultRequestProcessor.factory = plainFactory,
         DefaultRequestProcessor.client = okClient,
         variableExtractor = sampleExtractor\<rparr>,
      ChainExecutor.resultCollector = None\<rparr>"

definition unknownConfig :: Config where
  "unknownConfig = \<lparr>BaseUrl = ''http://example.com'', Timeout = 30, Concurrency = False,
     IgnoreFail = False, Request = [chainRequest ''req1'' ''nop'']\<rparr>"

definition cycleConfig :: Config where
  "cycleConfig = \<lparr>BaseUrl = ''http://example.com'', Timeout = 30, Concurrency = False,
     IgnoreFail = False,
     Request = [chainRequest ''A'' ''B'', chainRequest ''B'' ''C'', chainRequest ''C'' ''A'']\<rparr>"

theorem Execute_structural_failure_witness:
  "liveContext (fst (0, Map.empty, [])) = None
   \<and> (\<exists>r \<in> set (Request unknownConfig).
         DependsOn r \<noteq> [] \<and> DependsOn r \<notin> Name ` set (Request unknownConfig))
   \<and> (\<exists>e. fst (BuildRequestGraph None NewDependencyResolver unknownConfig [''req1'']) = Some e
         \<and> errorsIs e ErrUnknownDependency
         \<and> Execute sampleChainExecutor liveContext unknownConfig [''req1''] [''req1''] (0, Map.empty, [])
              = (Some (Wrapf ''failed to build request dependency graph'' [] e), (0, Map.empty, [])))
   \<and> distinct (map Name (Request cycleConfig)) \<and> dependenciesKnown cycleConfig
   \<and> (\<exists>x. (x, x) \<in> (dependsOnEdges cycleConfig)\<^sup>+)
   \<and> iteration_of [''A'', ''B'', ''C''] (indexRequests NewDependencyResolver (Request cycleConfig))
   \<and> iteration_of [''C'', ''A'', ''B''] (indexRequests NewDependencyResolver (Request cycleConfig))
   \<and> (\<exists>e. fst (BuildRequestGraph None NewDependencyResolver cycleConfig [''A'', ''B'', ''C'']) = Some e
         \<and> errorsIs e ErrCyclicDependency
         \<and> Execute sampleChainExecutor liveContext cycleConfig [''A'', ''B'', ''C''] [''C'', ''A'', ''B'']
              (0, Map.empty, [])
              = (Some (Wrapf ''failed to build request dependency graph'' [] e), (0, Map.empty, [])))
   \<and> (\<exists>e. CalculateExecutionOrder None
              (snd (BuildRequestGraph None NewDependencyResolver cycleConfig [''A'', ''B'', ''C'']))
              [''C'', ''A'', ''B''] = Inl e
         \<and> errorsIs e ErrCyclicDependency)"
proof -
  have l: "liveContext (fst (0, Map.empty, [])) = None"
    by (simp add: liveContext_def)
  have u: "\<exists>r \<in> set (Request unknownConfig).
         DependsOn r \<noteq> [] \<and> DependsOn r \<notin> Name ` set (Request unknownConfig)"
    by (simp add: unknownConfig_def chainRequest_def)
  have d: "distinct (map Name (Request cycleConfig))" and k: "dependenciesKnown cycleConfig"
    by (simp_all add: cycleConfig_def chainRequest_def dependenciesKnown_def)
  have e: "(Name r, DependsOn r) \<in> dependsOnEdges cycleConfig"
    if "r \<in> set (Request cycleConfig)" "DependsOn r \<noteq> []" for r
    using that by (auto simp: dependsOnEdges_def)
  have "(''A'', ''B'') \<in> dependsOnEdges cycleConfig" "(''B'', ''C'') \<in> dependsOnEdges cycleConfig"
    "(''C'', ''A'') \<in> dependsOnEdges cycleConfig"
    using e [of "chainRequest ''A'' ''B''"] e [of "chainRequest ''B'' ''C''"]
      e [of "chainRequest ''C'' ''A''"]
    by (simp_all add: cycleConfig_def chainRequest_def)
  then have "(''A'', ''A'') \<in> (dependsOnEdges cycleConfig)\<^sup>+"
    by (meson trancl.simps)
  then have c: "\<exists>x. (x, x) \<in> (dependsOnEdges cycleConfig)\<^sup>+"
    by blast
  have i: "iteration_of [''A'', ''B'', ''C''] (indexRequests NewDependencyResolver (Request cycleConfig))"
    "iteration_of [''C'', ''A'', ''B''] (indexRequests NewDependencyResolver (Request cycleConfig))"
    by (auto simp: iteration_of_def NewDependencyResolver_def cycleConfig_def chainRequest_def)
  from Execute_structural_failure [where cx = liveContext and s = "(0, Map.empty, [])"
      and config = unknownConfig and ksa = "[''req1'']" and ksb = "[''req1'']"
      and executor = sampleChainExecutor, OF l] u
  have 1: "\<exists>e. fst (BuildRequestGraph None NewDependencyResolver unknownConfig [''req1'']) = Some e
         \<and> errorsIs e ErrUnknownDependency
         \<and> Execute sampleChainExecutor liveContext unknownConfig [''req1''] [''req1''] (0, Map.empty, [])
              = (Some (Wrapf ''failed to build request dependency graph'' [] e), (0, Map.empty, []))"
    by blast
  from Execute_structural_failure [where cx = liveContext and s = "(0, Map.empty, [])"
      and config = cycleConfig and ksa = "[''A'', ''B'', ''C'']" and ksb = "[''C'', ''A'', ''B'']"
      and executor = sampleChainExecutor, OF l] d k c i
  have 2: "(\<exists>e. fst (BuildRequestGraph None NewDependencyResolver cycleConfig [''A'', ''B'', ''C'']) = Some e
         \<and> errorsIs e ErrCyclicDependency
         \<and> Execute sampleChainExecutor liveContext cycleConfig [''A'', ''B'', ''C''] [''C'', ''A'', ''B'']
              (0, Map.empty, [])
              = (Some (Wrapf ''failed to build request dependency graph'' [] e), (0, Map.empty, [])))
   \<and> (\<exists>e. CalculateExecutionOrder None
              (snd (BuildRequestGraph None NewDependencyResolver cycleConfig [''A'', ''B'', ''C'']))
              [''C'', ''A'', ''B''] = Inl e
         \<and> errorsIs e ErrCyclicDependency)"
    by blast
  from l u d k c i 1 2 show ?thesis
    by blast
qed

subsection \<open>The collector and the outcome of a chain\<close>

text \<open>
  A view \<open>vis\<close> of the world is what the context, the factory and the client depend
  on; a collector is outside the view when it leaves the view as it is.
\<close>

definition respectsView ::
  "('w \<Rightarrow> 'v) \<Rightarrow> ('w, 'q) DefaultRequestProcessor \<Rightarrow> ('w \<Rightarrow> error option) \<Rightarrow> bool" where
  "respectsView vis processor cx =
     (\<forall>w w'. vis w = vis w' \<longrightarrow>
        cx w = cx w'
        \<and> (\<forall>config req.
              fst (DefaultRequestProcessor.factory processor config req w)
                = fst (DefaultRequestProcessor.factory processor config req w')
              \<and> vis (snd (DefaultRequestProcessor.factory processor config req w))
                = vis (snd (DefaultRequestProcessor.factory processor config req w')))
        \<and> (\<forall>httpReq.
              fst (DefaultRequestProcessor.client processor httpReq w)
                = fst (DefaultRequestProcessor.client processor httpReq w')
              \<and> vis (snd (DefaultRequestProcessor.client processor httpReq w))
                = vis (snd (DefaultRequestProcessor.client processor httpReq w'))))"

definition outsideView :: "('w \<Rightarrow> 'v) \<Rightarrow> 'w ChainResultCollector \<Rightarrow> bool" where
  "outsideView vis collector =
     (\<forall>name method url statusCode err variables w.
        vis (collector name method url statusCode err variables w) = vis w)"

lemma respectsViewD:
  assumes "respectsView vis processor cx" and "vis w = vis w'"
  shows "cx w = cx w'"
    and "fst (DefaultRequestProcessor.factory processor config req w)
           = fst (DefaultRequestProcessor.factory processor config req w')"
    and "vis (snd (DefaultRequestProcessor.factory processor config req w))
           = vis (snd (DefaultRequestProcessor.factory processor config req w'))"
    and "fst (DefaultRequestProcessor.client processor httpReq w)
           = fst (DefaultRequestProcessor.client processor httpReq w')"
    and "vis (snd (DefaultRequestProcessor.client processor httpReq w))
           = vis (snd (DefaultRequestProcessor.client processor httpReq w'))"
  using assms unfolding respectsView_def by blast+

lemma executeRequest_view:
  assumes "respectsView vis processor cx" and "vis w = vis w'"
  shows "fst (executeRequest processor cx config req (w, tr))
           = fst (executeRequest processor cx config req (w', tr))
       \<and> snd (snd (executeRequest processor cx config req (w, tr)))
           = snd (snd (executeRequest processor cx config req (w', tr)))
       \<and> vis (fst (snd (executeRequest processor cx config req (w, tr))))
           = vis (fst (snd (executeRequest processor cx config req (w', tr))))"
proof -
  note d = respectsViewD [OF assms(1)]
  from d(1) [OF assms(2)] have c: "cx w = cx w'" .
  show ?thesis
  proof (cases "cx w")
    case (Some cerr)
    with c have "cx w' = Some cerr" by simp
    with Some assms(2) show ?thesis by (simp add: executeRequest_def)
  next
    case None
    with c have n': "cx w' = None" by simp
    obtain r1 w1 where f1: "DefaultRequestProcessor.factory processor config req w = (r1, w1)"
      by (cases "DefaultRequestProcessor.factory processor config req w")
    obtain r1' w1' where f2: "DefaultRequestProcessor.factory processor config req w' = (r1', w1')"
      by (cases "DefaultRequestProcessor.factory processor config req w'")
    from d(2) [OF assms(2), of config req] d(3) [OF assms(2), of config req] f1 f2
    have r: "r1' = r1" and v1: "vis w1 = vis w1'"
      by simp_all
    show ?thesis
    proof (cases r1)
      case (Inl err)
      with None n' f1 f2 r v1 show ?thesis by (simp add: executeRequest_def)
    next
      case (Inr httpReq)
      obtain r2 w2 where c1: "DefaultRequestProcessor.client processor httpReq w1 = (r2, w2)"
        by (cases "DefaultRequestProcessor.client processor httpReq w1")
      obtain r2' w2' where c2: "DefaultRequestProcessor.client processor httpReq w1' = (r2', w2')"
        by (cases "DefaultRequestProcessor.client processor httpReq w1'")
      from d(4) [OF v1, of httpReq] d(5) [OF v1, of httpReq] c1 c2
      have "r2' = r2" "vis w2 = vis w2'"
        by simp_all
      with None n' f1 f2 r Inr c1 c2 show ?thesis
        by (cases r2) (simp_all add: executeRequest_def)
    qed
  qed
qed

definition sameView :: "('w \<Rightarrow> 'v) \<Rightarrow> 'w chain_state \<Rightarrow> 'w chain_state \<Rightarrow> bool" where
  "sameView vis s s' = (vis (fst s) = vis (fst s') \<and> snd s = snd s')"

lemma ProcessRequest_view:
  assumes "respectsView vis processor cx" and "sameView vis s s'"
  shows "fst (ProcessRequest processor cx request config s)
           = fst (ProcessRequest processor cx request config s')
       \<and> sameView vis (snd (ProcessRequest processor cx request config s))
             (snd (ProcessRequest processor cx request config s'))"
proof -
  obtain w vals tr where s: "s = (w, vals, tr)" by (cases s)
  with assms(2) obtain w' where s': "s' = (w', vals, tr)" and v: "vis w = vis w'"
    by (cases s') (auto simp: sameView_def)
  note d = respectsViewD [OF assms(1)]
  from d(1) [OF v] have c: "cx w = cx w'" .
  show ?thesis
  proof (cases "cx w")
    case (Some cerr)
    with c have "cx w' = Some cerr" by simp
    with Some s s' v show ?thesis by (simp add: ProcessRequest_def sameView_def)
  next
    case None
    with c have n': "cx w' = None" by simp
    show ?thesis
    proof (cases "prepareRequest vals None request")
      case (Inl err)
      with None n' s s' v show ?thesis by (simp add: ProcessRequest_def sameView_def)
    next
      case (Inr prepared)
      obtain r w1 tr1 where e1: "executeRequest processor cx config prepared (w, tr) = (r, (w1, tr1))"
        by (metis prod_cases3)
      obtain r' w1' tr1' where e2: "executeRequest processor cx config prepared (w', tr) = (r', (w1', tr1'))"
        by (metis prod_cases3)
      from executeRequest_view [OF assms(1) v, of config prepared tr] e1 e2
      have eq: "r' = r" "tr1' = tr1" and v1: "vis w1 = vis w1'"
        by simp_all
      from d(1) [OF v1] have c1: "cx w1' = cx w1" by simp
      from None n' Inr e1 e2 eq v1 c1 s s' show ?thesis
        by (simp add: ProcessRequest_def sameView_def split: sum.splits prod.splits option.splits)
    qed
  qed
qed

definition collectorOutside :: "('w \<Rightarrow> 'v) \<Rightarrow> 'w ChainResultCollector option \<Rightarrow> bool" where
  "collectorOutside vis c = (case c of None \<Rightarrow> True | Some collector \<Rightarrow> outsideView vis collector)"

lemma collectorOutside_apply:
  "collectorOutside vis c \<Longrightarrow>
   vis (case c of Some col \<Rightarrow> col name method url statusCode err variables w | None \<Rightarrow> w) = vis w"
  by (cases c) (simp_all add: collectorOutside_def outsideView_def)

lemma processRequestByName_view:
  assumes "respectsView vis (requestProcessor e1) cx"
    and "requestProcessor e2 = requestProcessor e1"
    and "collectorOutside vis (ChainExecutor.resultCollector e1)"
    and "collectorOutside vis (ChainExecutor.resultCollector e2)"
    and "sameView vis s s'"
  shows "fst (processRequestByName e1 cx name requestMap executed config s)
           = fst (processRequestByName e2 cx name requestMap executed config s')
       \<and> fst (snd (processRequestByName e1 cx name requestMap executed config s))
           = fst (snd (processRequestByName e2 cx name requestMap executed config s'))
       \<and> sameView vis (snd (snd (processRequestByName e1 cx name requestMap executed config s)))
             (snd (snd (processRequestByName e2 cx name requestMap executed config s')))"
proof (cases "name \<in> executed")
  case True
  with assms(5) show ?thesis by (simp add: processRequestByName_def)
next
  case False
  let ?obj = "fmlookup requestMap name"
  obtain r w1 vals1 tr1
    where p1: "ProcessRequest (requestProcessor e1) cx ?obj config s = (r, (w1, vals1, tr1))"
    by (metis prod_cases4)
  obtain r' w1' vals1' tr1'
    where p2: "ProcessRequest (requestProcessor e1) cx ?obj config s' = (r', (w1', vals1', tr1'))"
    by (metis prod_cases4)
  from ProcessRequest_view [OF assms(1,5), of ?obj config] p1 p2
  have eq: "r' = r" "vals1' = vals1" "tr1' = tr1" and v: "vis w1 = vis w1'"
    by (simp_all add: sameView_def)
  show ?thesis
  proof (cases ?obj)
    case None
    with False p1 p2 eq v assms(2) show ?thesis
      by (simp add: processRequestByName_def sameView_def)
  next
    case (Some obj)
    let ?variables = "case r of Inr x \<Rightarrow> Variables x | Inl e \<Rightarrow> Map.empty"
    let ?status = "case r of Inr x \<Rightarrow> ExecutionResult.StatusCode x | Inl e \<Rightarrow> 0"
    let ?err = "case r of Inr x \<Rightarrow> None | Inl e \<Rightarrow> Some e"
    let ?w2 = "case ChainExecutor.resultCollector e1 of
                 Some col \<Rightarrow> col (Name obj) (Method obj) (BaseUrl config @ Path obj) ?status ?err ?variables w1
               | None \<Rightarrow> w1"
    let ?w2' = "case ChainExecutor.resultCollector e2 of
                 Some col \<Rightarrow> col (Name obj) (Method obj) (BaseUrl config @ Path obj) ?status ?err ?variables w1'
               | None \<Rightarrow> w1'"
    from collectorOutside_apply [OF assms(3)] collectorOutside_apply [OF assms(4)] v
    have v2: "vis ?w2 = vis ?w2'" by simp
    have a: "processRequestByName e1 cx name requestMap executed config s =
        (case ?err of
           Some e \<Rightarrow>
             if IgnoreFail config
             then (None, executed,
                   (?w2, vals1,
                    tr1 @ [Printf ''Request %s failed: %v, continuing due to ignore_fail=true''
                             [S (Name obj)] (Some e)]))
             else (Some (Wrapf ''failed to process request %s'' [S (Name obj)] e), executed, (?w2, vals1, tr1))
         | None \<Rightarrow> (None, insert name executed, (?w2, vals1, tr1)))"
      using False Some p1 by (simp add: processRequestByName_def Let_def)
    have b: "processRequestByName e2 cx name requestMap executed config s' =
        (case ?err of
           Some e \<Rightarrow>
             if IgnoreFail config
             then (None, executed,
                   (?w2', vals1,
                    tr1 @ [Printf ''Request %s failed: %v, continuing due to ignore_fail=true''
                             [S (Name obj)] (Some e)]))
             else (Some (Wrapf ''failed to process request %s'' [S (Name obj)] e), executed, (?w2', vals1, tr1))
         | None \<Rightarrow> (None, insert name executed, (?w2', vals1, tr1)))"
      using False Some p2 eq assms(2) by (simp add: processRequestByName_def Let_def)
    from v2 show ?thesis
      unfolding a b by (cases ?err) (simp_all add: sameView_def)
  qed
qed

lemma executeRequestsLoop_view:
  assumes "respectsView vis (requestProcessor e1) cx"
    and "requestProcessor e2 = requestProcessor e1"
    and "collectorOutside vis (ChainExecutor.resultCollector e1)"
    and "collectorOutside vis (ChainExecutor.resultCollector e2)"
  shows "sameView vis s s' \<Longrightarrow>
         fst (executeRequestsLoop e1 cx names requestMap executed config s)
           = fst (executeRequestsLoop e2 cx names requestMap executed config s')
       \<and> sameView vis (snd (executeRequestsLoop e1 cx names requestMap executed config s))
             (snd (executeRequestsLoop e2 cx names requestMap executed config s'))"
proof (induction names arbitrary: executed s s')
  case Nil
  then show ?case by simp
next
  case (Cons name names)
  from Cons.prems have v: "vis (fst s) = vis (fst s')" by (simp add: sameView_def)
  from respectsViewD(1) [OF assms(1) v] have c: "cx (fst s') = cx (fst s)" by simp
  show ?case
  proof (cases "cx (fst s)")
    case (Some cerr)
    with c Cons.prems show ?thesis by simp
  next
    case None
    obtain er ex st where p1: "processRequestByName e1 cx name requestMap executed config s = (er, ex, st)"
      by (metis prod_cases3)
    obtain er' ex' st' where p2: "processRequestByName e2 cx name requestMap executed config s' = (er', ex', st')"
      by (metis prod_cases3)
    from processRequestByName_view [OF assms Cons.prems, of name requestMap executed config] p1 p2
    have eq: "er' = er" "ex' = ex" and sv: "sameView vis st st'"
      by simp_all
    show ?thesis
    proof (cases er)
      case n: None
      with None c p1 p2 eq Cons.IH [OF sv, of ex] show ?thesis by simp
    next
      case (Some err)
      with None c p1 p2 eq sv show ?thesis by simp
    qed
  qed
qed

text \<open>
  \<open>processRequestByName\<close> calls the collector and then looks at the error of the
  request on its own, so the error returned by \<open>Execute\<close>, the variables and the
  trace are the same with and without a collector, and so is the view of the world.
\<close>

lemma Execute_collector_independent:
  assumes "respectsView vis (requestProcessor executor) cx"
    and "outsideView vis collector"
  shows "fst (Execute (executor\<lparr>ChainExecutor.resultCollector := None\<rparr>) cx config ksa ksb s)
           = fst (Execute (executor\<lparr>ChainExecutor.resultCollector := Some collector\<rparr>) cx config ksa ksb s)
       \<and> sameView vis
            (snd (Execute (executor\<lparr>ChainExecutor.resultCollector := None\<rparr>) cx config ksa ksb s))
            (snd (Execute (executor\<lparr>ChainExecutor.resultCollector := Some collector\<rparr>) cx config ksa ksb s))"
proof -
  let ?e1 = "executor\<lparr>ChainExecutor.resultCollector := None\<rparr>"
  let ?e2 = "executor\<lparr>ChainExecutor.resultCollector := Some collector\<rparr>"
  have sv: "sameView vis s s" by (simp add: sameView_def)
  have l: "fst (executeRequestsLoop ?e1 cx names requestMap {} config s)
           = fst (executeRequestsLoop ?e2 cx names requestMap {} config s)
       \<and> sameView vis (snd (executeRequestsLoop ?e1 cx names requestMap {} config s))
             (snd (executeRequestsLoop ?e2 cx names requestMap {} config s))" for names requestMap
    using assms by (intro executeRequestsLoop_view [OF _ _ _ _ sv]) (simp_all add: collectorOutside_def)
  show ?thesis
    using l sv
    by (simp add: Execute_def executeRequestsInOrder_def split: prod.splits option.splits sum.splits)
qed

section \<open>Properties of the batch executor\<close>

lemma batchSequentialLoop_failure_without_collector:
  assumes "Executor.resultCollector executor = None" and "\<not> IgnoreFail config"
    and "ctx executor w = None"
    and "executeConfigRequest executor config req (w, tr) = (Inl err, (w1, tr1))"
  shows "batchSequentialLoop executor config (req # reqs) (w, tr)
     = (Some (Wrapf ''batch request failed'' [] err),
        (w1, tr1 @ [Printf ''Request %s failed: %v'' [S (Name req)] (Some err)]))"
  using assms by simp

lemma batchSequentialLoop_failure_with_collector:
  assumes "Executor.resultCollector executor = Some collector"
    and "ctx executor w = None"
    and "executeConfigRequest executor config req (w, tr) = (Inl err, (w1, tr1))"
  shows "batchSequentialLoop executor config (req # reqs) (w, tr)
     = batchSequentialLoop executor config reqs
         (collector (Name req) (Method req) (BaseUrl config @ Path req) 0 (Some err) w1, tr1)"
  using assms by simp

definition batchRequest :: "string \<Rightarrow> string \<Rightarrow> Request" where
  "batchRequest name path = \<lparr>Name = name, Method = ''GET'', Path = path, Headers = [],
     RawBody = None, FormBody = None, JsonBody = None, Extract = [], DependsOn = []\<rparr>"

definition threeRequestsConfig :: Config where
  "threeRequestsConfig = \<lparr>BaseUrl = ''http://example.com'', Timeout = 30, Concurrency = False,
     IgnoreFail = False,
     Request = [batchRequest ''req1'' ''/api1'', batchRequest ''req2'' ''/api2'',
                batchRequest ''req3'' ''/api3'']\<rparr>"

text \<open>A client that fails on the second request and answers 200 to the others.\<close>

definition secondFails :: "(nat, string) Client" where
  "secondFails httpReq w =
     (if httpReq = ''http://example.com/api2'' then (Inl (External ''connection refused''), Suc w)
      else (Inr \<lparr>Response.StatusCode = 200, Body = None\<rparr>, Suc w))"

definition silentCollector :: "nat ResultCollector" where
  "silentCollector name method url statusCode err w = w"

definition batchExecutor :: "nat ResultCollector option \<Rightarrow> (nat, string) Executor" where
  "batchExecutor collector =
     \<lparr>client = secondFails, factory = plainFactory, ctx = liveContext, resultCollector = collector\<rparr>"

fun sentRequests :: "event list \<Rightarrow> string list" where
  "sentRequests [] = []"
| "sentRequests (Sent req # evs) = Name req # sentRequests evs"
| "sentRequests (ev # evs) = sentRequests evs"

lemmas batch_eval =
  ExecuteBatchSequential_def executeConfigRequest_def executeHttpRequest_def batchExecutor_def
  threeRequestsConfig_def batchRequest_def secondFails_def plainFactory_def liveContext_def
  silentCollector_def

text \<open>
  C2 does not hold of the code when a collector is set. Three requests, \<open>IgnoreFail\<close>
  off, a live context, a collector, and a client that fails on the second request:
  the loop calls the collector and goes on, the third request is sent, and the run
  returns no error. (Without a collector the run stops at the failure:
  \<open>batchSequentialLoop_failure_without_collector\<close>.)
\<close>

theorem ExecuteBatchSequential_collector_hides_failure:
  "ExecuteBatchSequential (batchExecutor (Some silentCollector)) threeRequestsConfig (0, [])
     = (None, (3, [Sent (batchRequest ''req1'' ''/api1''), Sent (batchRequest ''req2'' ''/api2''),
                   Sent (batchRequest ''req3'' ''/api3'')]))"
  by (simp add: batch_eval)

text \<open>
  C3 does not hold of the code. On the same input, the run without a collector
  returns the wrapped failure after sending two requests; the run with a collector
  returns no error after sending three.
\<close>

theorem ExecuteBatchSequential_collector_changes_run:
  "fst (ExecuteBatchSequential (batchExecutor None) threeRequestsConfig (0, []))
     = Some (Wrapf ''batch request failed'' []
               (Wrapf ''request execution failed'' [] (External ''connection refused'')))
   \<and> sentRequests (snd (snd (ExecuteBatchSequential (batchExecutor None) threeRequestsConfig (0, []))))
     = [''req1'', ''req2'']
   \<and> fst (ExecuteBatchSequential (batchExecutor (Some silentCollector)) threeRequestsConfig (0, []))
     = None
   \<and> sentRequests (snd (snd (ExecuteBatchSequential (batchExecutor (Some silentCollector))
         threeRequestsConfig (0, []))))
     = [''req1'', ''req2'', ''req3'']"
  by (simp add: batch_eval)


subsection \<open>The worker pool\<close>

lemma pool_step_errCh:
  "pool_step executor config p p' \<Longrightarrow>
   errCh p' = errCh p
   \<or> (\<not> IgnoreFail config \<and> (\<exists>err. errCh p' = Some (Wrapf ''batch request failed'' [] err)))"
  by (induction rule: pool_step.induct) (auto simp: offerError_def split: option.splits)

lemma pool_steps_errCh:
  "(pool_step executor config)\<^sup>*\<^sup>* p0 p \<Longrightarrow> errCh p0 = None \<Longrightarrow>
   errCh p = None
   \<or> (\<not> IgnoreFail config \<and> (\<exists>err. errCh p = Some (Wrapf ''batch request failed'' [] err)))"
proof (induction rule: rtranclp_induct)
  case base
  then show ?case by simp
next
  case (step p p')
  from pool_step_errCh [OF step.hyps(2)] step.IH [OF step.prems] show ?case
    by auto
qed

text \<open>
  C8. For every run of \<open>ExecuteBatchConcurrent\<close>, under every interleaving of the
  producer and the workers, whose final \<open>select\<close> finds the context live: with
  \<open>IgnoreFail\<close> on, the run returns no error, however many requests failed; and an
  error is returned only with \<open>IgnoreFail\<close> off, and is then the wrapped failure of
  a request, taken from \<open>errCh\<close>. (Some run always returns:
  \<open>ExecuteBatchConcurrent_returns\<close>.)
\<close>

theorem ExecuteBatchConcurrent_ignoreFail:
  assumes "ExecuteBatchConcurrent executor config s (res, s')"
    and "ctx executor (fst s') = None"
  shows "(IgnoreFail config \<longrightarrow> res = None)
       \<and> (\<forall>e. res = Some e \<longrightarrow>
            \<not> IgnoreFail config \<and> (\<exists>err. e = Wrapf ''batch request failed'' [] err))"
  using assms(1)
proof (cases rule: ExecuteBatchConcurrent.cases)
  case (run p)
  from pool_steps_errCh [OF run(2)]
  have slot: "errCh p = None
      \<or> (\<not> IgnoreFail config \<and> (\<exists>err. errCh p = Some (Wrapf ''batch request failed'' [] err)))"
    by (simp add: startPool_def)
  from run(5) show ?thesis
  proof (cases rule: finalSelect.cases)
    case (context_done cerr)
    with run(1) assms(2) show ?thesis by simp
  next
    case (error_received err)
    with slot show ?thesis by auto
  next
    case no_errors
    then show ?thesis by simp
  qed
qed


text \<open>Some run returns: the producer sends every job and closes the channel, the first
  worker takes the jobs one after the other, then every worker finds the channel
  drained.\<close>

lemma enqueue_all:
  "unsent p = rs \<Longrightarrow> \<not> jobsClosed p \<Longrightarrow>
   (pool_step executor config)\<^sup>*\<^sup>* p (p\<lparr>unsent := [], jobs := jobs p @ rs\<rparr>)"
proof (induction rs arbitrary: p)
  case Nil
  then have "p\<lparr>unsent := [], jobs := jobs p @ []\<rparr> = p" by simp
  then show ?case by simp
next
  case (Cons r rs)
  let ?p1 = "p\<lparr>unsent := rs, jobs := jobs p @ [r]\<rparr>"
  from Cons.prems have "pool_step executor config p ?p1"
    by (rule pool_step.enqueue)
  moreover have "(pool_step executor config)\<^sup>*\<^sup>* ?p1 (?p1\<lparr>unsent := [], jobs := jobs ?p1 @ rs\<rparr>)"
    using Cons.prems by (intro Cons.IH) simp_all
  moreover have "?p1\<lparr>unsent := [], jobs := jobs ?p1 @ rs\<rparr> = p\<lparr>unsent := [], jobs := jobs p @ r # rs\<rparr>"
    by simp
  ultimately show ?case
    by (metis converse_rtranclp_into_rtranclp)
qed

text \<open>
  What one worker does with one job, on the world, the trace and the error slot:
  \<open>executeConfigRequest\<close>, then the collector, then the offer of the error.
\<close>

definition workJob ::
  "('w, 'q) Executor \<Rightarrow> Config \<Rightarrow> Request \<Rightarrow> 'w \<times> event list \<times> error option
     \<Rightarrow> 'w \<times> event list \<times> error option" where
  "workJob executor config req st =
     (case st of (w, tr, slot) \<Rightarrow>
        (case executeConfigRequest executor config req (w, tr) of
           (res, (w1, tr1)) \<Rightarrow>
             (collect executor config req res w1, tr1, offerError config (errorOf res) slot)))"

lemma process_job:
  assumes "0 < length (workers p)" and "workers p ! 0 = Idle" and "jobs p = r # rs"
  shows "\<exists>p'. (pool_step executor config)\<^sup>*\<^sup>* p p' \<and> jobs p' = rs \<and> workers p' = workers p
           \<and> jobsClosed p' = jobsClosed p \<and> unsent p' = unsent p
           \<and> (world p', trace p', errCh p') = workJob executor config r (world p, trace p, errCh p)"
proof -
  let ?p1 = "p\<lparr>workers := (workers p)[0 := Creating r], jobs := rs\<rparr>"
  have s1: "pool_step executor config p ?p1"
    using assms by (rule pool_step.receive)
  have "\<exists>res p3. (pool_step executor config)\<^sup>*\<^sup>* ?p1 p3 \<and> workers p3 = (workers p)[0 := Reporting r res]
           \<and> jobs p3 = rs \<and> jobsClosed p3 = jobsClosed p \<and> unsent p3 = unsent p \<and> errCh p3 = errCh p
           \<and> executeConfigRequest executor config r (world p, trace p) = (res, (world p3, trace p3))"
  proof (cases "factory executor config r (world p)")
    case (Pair created w')
    show ?thesis
    proof (cases created)
      case (Inl err)
      let ?p3 = "?p1\<lparr>workers := (workers ?p1)[0 := Reporting r (Inl (Wrapf ''failed to prepare request'' [] err))],
          world := w'\<rparr>"
      have "pool_step executor config ?p1 ?p3"
        using assms(1) Pair Inl by (intro pool_step.create_failed) simp_all
      then have "(pool_step executor config)\<^sup>*\<^sup>* ?p1 ?p3 \<and>
          workers ?p3 = (workers p)[0 := Reporting r (Inl (Wrapf ''failed to prepare request'' [] err))]
           \<and> jobs ?p3 = rs \<and> jobsClosed ?p3 = jobsClosed p \<and> unsent ?p3 = unsent p
           \<and> errCh ?p3 = errCh p
           \<and> executeConfigRequest executor config r (world p, trace p)
               = (Inl (Wrapf ''failed to prepare request'' [] err), (world ?p3, trace ?p3))"
        using Pair Inl by (simp add: executeConfigRequest_def)
      then show ?thesis by blast
    next
      case (Inr httpReq)
      let ?p2 = "?p1\<lparr>workers := (workers ?p1)[0 := Sending r httpReq], world := w'\<rparr>"
      have s2: "pool_step executor config ?p1 ?p2"
        using assms(1) Pair Inr by (intro pool_step.create) simp_all
      obtain res w'' where e: "executeHttpRequest executor httpReq w' = (res, w'')"
        by (cases "executeHttpRequest executor httpReq w'")
      let ?p3 = "?p2\<lparr>workers := (workers ?p2)[0 := Reporting r res], world := w'',
          trace := trace ?p2 @ [Sent r]\<rparr>"
      have "pool_step executor config ?p2 ?p3"
        using assms(1) e by (intro pool_step.send) simp_all
      with s2 have "(pool_step executor config)\<^sup>*\<^sup>* ?p1 ?p3"
        by (meson rtranclp.rtrancl_into_rtrancl rtranclp.rtrancl_refl)
      then have "(pool_step executor config)\<^sup>*\<^sup>* ?p1 ?p3 \<and> workers ?p3 = (workers p)[0 := Reporting r res]
           \<and> jobs ?p3 = rs \<and> jobsClosed ?p3 = jobsClosed p \<and> unsent ?p3 = unsent p
           \<and> errCh ?p3 = errCh p
           \<and> executeConfigRequest executor config r (world p, trace p) = (res, (world ?p3, trace ?p3))"
        using Pair Inr e by (simp add: executeConfigRequest_def)
      then show ?thesis by blast
    qed
  qed
  then obtain res p3 where s3: "(pool_step executor config)\<^sup>*\<^sup>* ?p1 p3"
    and p3: "workers p3 = (workers p)[0 := Reporting r res]" "jobs p3 = rs"
      "jobsClosed p3 = jobsClosed p" "unsent p3 = unsent p" "errCh p3 = errCh p"
    and ex: "executeConfigRequest executor config r (world p, trace p) = (res, (world p3, trace p3))"
    by blast
  let ?p4 = "p3\<lparr>workers := (workers p3)[0 := Finishing (errorOf res)],
          world := collect executor config r res (world p3)\<rparr>"
  have s4: "pool_step executor config p3 ?p4"
    using assms(1) p3(1) by (intro pool_step.report) simp_all
  let ?p5 = "?p4\<lparr>workers := (workers ?p4)[0 := Idle],
      errCh := offerError config (errorOf res) (errCh ?p4)\<rparr>"
  have s5: "pool_step executor config ?p4 ?p5"
    using assms(1) p3(1) by (intro pool_step.finish) simp_all
  have "(workers p)[0 := Idle] = workers p"
    using assms(2) by (metis list_update_id)
  with p3 ex have "jobs ?p5 = rs \<and> workers ?p5 = workers p \<and> jobsClosed ?p5 = jobsClosed p
      \<and> unsent ?p5 = unsent p
      \<and> (world ?p5, trace ?p5, errCh ?p5) = workJob executor config r (world p, trace p, errCh p)"
    by (simp add: workJob_def)
  moreover from s1 s3 s4 s5 have "(pool_step executor config)\<^sup>*\<^sup>* p ?p5"
    by (meson converse_rtranclp_into_rtranclp rtranclp.rtrancl_into_rtrancl)
  ultimately show ?thesis by blast
qed

lemma process_all:
  "jobs p = js \<Longrightarrow> 0 < length (workers p) \<Longrightarrow> workers p ! 0 = Idle \<Longrightarrow>
   \<exists>p'. (pool_step executor config)\<^sup>*\<^sup>* p p' \<and> jobs p' = [] \<and> workers p' = workers p
           \<and> jobsClosed p' = jobsClosed p \<and> unsent p' = unsent p
           \<and> (world p', trace p', errCh p')
               = fold (workJob executor config) js (world p, trace p, errCh p)"
proof (induction js arbitrary: p)
  case Nil
  then have "(pool_step executor config)\<^sup>*\<^sup>* p p \<and> jobs p = [] \<and> workers p = workers p
           \<and> jobsClosed p = jobsClosed p \<and> unsent p = unsent p
           \<and> (world p, trace p, errCh p) = fold (workJob executor config) [] (world p, trace p, errCh p)"
    by simp
  then show ?case by blast
next
  case (Cons r rs)
  from process_job [OF Cons.prems(2,3,1)] obtain p1
    where 1: "(pool_step executor config)\<^sup>*\<^sup>* p p1" "jobs p1 = rs" "workers p1 = workers p"
      "jobsClosed p1 = jobsClosed p" "unsent p1 = unsent p"
      "(world p1, trace p1, errCh p1) = workJob executor config r (world p, trace p, errCh p)"
    by blast
  from Cons.IH [OF 1(2)] Cons.prems(2,3) 1(3) obtain p2
    where 2: "(pool_step executor config)\<^sup>*\<^sup>* p1 p2" "jobs p2 = []" "workers p2 = workers p1"
      "jobsClosed p2 = jobsClosed p1" "unsent p2 = unsent p1"
      "(world p2, trace p2, errCh p2) = fold (workJob executor config) rs (world p1, trace p1, errCh p1)"
    by auto
  from 1 2 have "(pool_step executor config)\<^sup>*\<^sup>* p p2 \<and> jobs p2 = [] \<and> workers p2 = workers p
           \<and> jobsClosed p2 = jobsClosed p \<and> unsent p2 = unsent p
           \<and> (world p2, trace p2, errCh p2)
               = fold (workJob executor config) (r # rs) (world p, trace p, errCh p)"
    by auto
  then show ?case by blast
qed

lemma exit_all:
  "workers p = replicate n Exited @ replicate m Idle \<Longrightarrow> jobs p = [] \<Longrightarrow> jobsClosed p \<Longrightarrow>
   \<exists>p'. (pool_step executor config)\<^sup>*\<^sup>* p p' \<and> jobsClosed p'
      \<and> (\<forall>wk \<in> set (workers p'). wk = Exited)
      \<and> world p' = world p \<and> trace p' = trace p \<and> errCh p' = errCh p"
proof (induction m arbitrary: n p)
  case 0
  then have "\<forall>wk \<in> set (workers p). wk = Exited" by simp
  with "0.prems" show ?case by blast
next
  case (Suc m)
  let ?p1 = "p\<lparr>workers := (workers p)[n := Exited]\<rparr>"
  from Suc.prems(1) have n: "n < length (workers p)" "workers p ! n = Idle"
    by (simp_all add: nth_append)
  with Suc.prems(2,3) have s: "pool_step executor config p ?p1"
    by (intro pool_step.drained)
  from Suc.prems(1) have "workers ?p1 = replicate (Suc n) Exited @ replicate m Idle"
    by (simp add: list_update_append replicate_append_same)
  from Suc.IH [OF this] Suc.prems(2,3) obtain p'
    where "(pool_step executor config)\<^sup>*\<^sup>* ?p1 p'" "jobsClosed p'"
      "\<forall>wk \<in> set (workers p'). wk = Exited" "world p' = world p" "trace p' = trace p"
      "errCh p' = errCh p"
    by auto
  with s have "(pool_step executor config)\<^sup>*\<^sup>* p p' \<and> jobsClosed p'
      \<and> (\<forall>wk \<in> set (workers p'). wk = Exited)
      \<and> world p' = world p \<and> trace p' = trace p \<and> errCh p' = errCh p"
    by (meson converse_rtranclp_into_rtranclp)
  then show ?case by blast
qed

lemma finalSelect_same:
  assumes "finalSelect executor config p res" and "world q = world p" and "errCh q = errCh p"
  shows "finalSelect executor config q res"
  using assms(1)
proof (cases rule: finalSelect.cases)
  case (context_done cerr)
  with assms(2) show ?thesis by (simp add: finalSelect.context_done)
next
  case (error_received err)
  with assms(3) have "finalSelect executor config q (if \<not> IgnoreFail config then Some err else None)"
    by (intro finalSelect.error_received) simp
  with error_received show ?thesis by simp
next
  case no_errors
  with assms(2,3) show ?thesis by (simp add: finalSelect.no_errors)
qed

text \<open>
  The run in which the jobs are worked one after the other: its final select sees
  the world, the trace and the error slot of \<open>workJob\<close> folded over the requests.
\<close>

lemma sequential_schedule:
  assumes "fold (workJob executor config) (Request config) (fst s, snd s, None) = (w', tr', slot)"
    and "finalSelect executor config
           (\<lparr>unsent = [], jobs = [], jobsClosed = True, errCh = slot, workers = [],
             world = w', trace = tr'\<rparr> :: ('w, 'q) pool) res"
  shows "ExecuteBatchConcurrent executor config s (res, (w', tr'))"
proof -
  let ?k = "if length (Request config) < DefaultMaxWorkers then length (Request config)
            else DefaultMaxWorkers"
  let ?p0 = "startPool config s :: ('w, 'q) pool"
  let ?p1 = "?p0\<lparr>unsent := [], jobs := jobs ?p0 @ Request config\<rparr>"
  let ?p2 = "?p1\<lparr>jobsClosed := True\<rparr>"
  have w0: "workers ?p0 = replicate ?k Idle" and u0: "unsent ?p0 = Request config"
    and c0: "\<not> jobsClosed ?p0" and j0: "jobs ?p0 = []" and e0: "errCh ?p0 = None"
    and wt0: "world ?p0 = fst s" "trace ?p0 = snd s"
    by (simp_all add: startPool_def)
  from enqueue_all [OF u0 c0] have s1: "(pool_step executor config)\<^sup>*\<^sup>* ?p0 ?p1" .
  have "pool_step executor config ?p1 ?p2"
    using c0 by (intro pool_step.close) simp_all
  with s1 have s2: "(pool_step executor config)\<^sup>*\<^sup>* ?p0 ?p2"
    by (rule rtranclp.rtrancl_into_rtrancl)
  have "\<exists>p3. (pool_step executor config)\<^sup>*\<^sup>* ?p2 p3 \<and> jobs p3 = [] \<and> workers p3 = replicate ?k Idle
      \<and> jobsClosed p3 \<and> (world p3, trace p3, errCh p3) = (w', tr', slot)"
  proof (cases "Request config = []")
    case True
    with w0 j0 e0 wt0 assms(1) have "(pool_step executor config)\<^sup>*\<^sup>* ?p2 ?p2 \<and> jobs ?p2 = []
        \<and> workers ?p2 = replicate ?k Idle \<and> jobsClosed ?p2
        \<and> (world ?p2, trace ?p2, errCh ?p2) = (w', tr', slot)"
      by simp
    then show ?thesis by blast
  next
    case False
    then have "0 < ?k" by (simp add: DefaultMaxWorkers_def)
    with w0 have "0 < length (workers ?p2)" "workers ?p2 ! 0 = Idle"
      by simp_all
    from process_all [OF refl this, of executor config] w0 j0 e0 wt0 assms(1) show ?thesis
      by auto
  qed
  then obtain p3 where s3: "(pool_step executor config)\<^sup>*\<^sup>* ?p2 p3" and p3: "jobs p3 = []"
    "workers p3 = replicate ?k Idle" "jobsClosed p3" "world p3 = w'" "trace p3 = tr'" "errCh p3 = slot"
    by auto
  from p3(2) have "workers p3 = replicate 0 Exited @ replicate ?k Idle" by simp
  from exit_all [OF this p3(1,3), of executor config] p3 obtain p4
    where s4: "(pool_step executor config)\<^sup>*\<^sup>* p3 p4" and p4: "jobsClosed p4"
      "\<forall>wk \<in> set (workers p4). wk = Exited" "world p4 = w'" "trace p4 = tr'" "errCh p4 = slot"
    by auto
  from s2 s3 s4 have steps: "(pool_step executor config)\<^sup>*\<^sup>* ?p0 p4"
    by (meson rtranclp_trans)
  from p4(3,5) have "finalSelect executor config p4 res"
    by (intro finalSelect_same [OF assms(2)]) simp_all
  with steps p4 have "ExecuteBatchConcurrent executor config s (res, (world p4, trace p4))"
    by (intro ExecuteBatchConcurrent.run)
  with p4 show ?thesis by simp
qed

lemma finalSelect_total: "\<exists>res. finalSelect executor config p res"
proof (cases "ctx executor (world p)")
  case None
  show ?thesis
  proof (cases "errCh p")
    case n: None
    with None show ?thesis by (blast intro: finalSelect.no_errors)
  next
    case (Some err)
    then show ?thesis by (blast intro: finalSelect.error_received)
  qed
next
  case (Some cerr)
  then show ?thesis by (blast intro: finalSelect.context_done)
qed

lemma ExecuteBatchConcurrent_returns:
  "\<exists>res s'. ExecuteBatchConcurrent executor config s (res, s')"
proof -
  obtain w' tr' slot
    where f: "fold (workJob executor config) (Request config) (fst s, snd s, None) = (w', tr', slot)"
    by (metis prod_cases3)
  obtain res where "finalSelect executor config
           (\<lparr>unsent = [], jobs = [], jobsClosed = True, errCh = slot, workers = [],
             world = w', trace = tr'\<rparr> :: ('a, 'b) pool) res"
    using finalSelect_total by blast
  from sequential_schedule [OF f this] show ?thesis by blast
qed


text \<open>A client for which every request fails.\<close>

definition allFail :: "(nat, string) Client" where
  "allFail httpReq w = (Inl (External ''connection refused''), Suc w)"

definition failingExecutor :: "(nat, string) Executor" where
  "failingExecutor =
     \<lparr>client = allFail, factory = plainFactory, ctx = liveContext, resultCollector = None\<rparr>"

definition twoRequestsConfig :: "bool \<Rightarrow> Config" where
  "twoRequestsConfig ignoreFail = \<lparr>BaseUrl = ''http://example.com'', Timeout = 30,
     Concurrency = True, IgnoreFail = ignoreFail,
     Request = [batchRequest ''req1'' ''/api1'', batchRequest ''req2'' ''/api2'']\<rparr>"

lemmas pool_eval =
  workJob_def executeConfigRequest_def executeHttpRequest_def collect_def offerError_def
  failingExecutor_def twoRequestsConfig_def batchRequest_def allFail_def plainFactory_def
  liveContext_def

theorem ExecuteBatchConcurrent_ignoreFail_witness:
  "IgnoreFail (twoRequestsConfig True)
   \<and> ExecuteBatchConcurrent failingExecutor (twoRequestsConfig True) (0, [])
        (None, (2, [Sent (batchRequest ''req1'' ''/api1''), Sent (batchRequest ''req2'' ''/api2'')]))
   \<and> ctx failingExecutor
        (fst (2 :: nat, [Sent (batchRequest ''req1'' ''/api1''), Sent (batchRequest ''req2'' ''/api2'')]))
       = None
   \<and> \<not> IgnoreFail (twoRequestsConfig False)
   \<and> ExecuteBatchConcurrent failingExecutor (twoRequestsConfig False) (0, [])
        (Some (Wrapf ''batch request failed'' []
                 (Wrapf ''request execution failed'' [] (External ''connection refused''))),
         (2, [Sent (batchRequest ''req1'' ''/api1''), Sent (batchRequest ''req2'' ''/api2'')]))"
proof -
  let ?tr = "[Sent (batchRequest ''req1'' ''/api1''), Sent (batchRequest ''req2'' ''/api2'')]"
  let ?e = "Wrapf ''batch request failed'' []
              (Wrapf ''request execution failed'' [] (External ''connection refused''))"
  have live: "ctx failingExecutor (fst (2 :: nat, ?tr)) = None"
    by (simp add: failingExecutor_def liveContext_def)
  have f1: "fold (workJob failingExecutor (twoRequestsConfig True)) (Request (twoRequestsConfig True))
      (fst (0, []), snd (0, []), None) = (2, ?tr, None)"
    by (simp add: pool_eval)
  have "finalSelect failingExecutor (twoRequestsConfig True)
      (\<lparr>unsent = [], jobs = [], jobsClosed = True, errCh = None, workers = [],
        world = 2, trace = ?tr\<rparr> :: (nat, string) pool) None"
    by (rule finalSelect.no_errors) (simp_all add: failingExecutor_def liveContext_def)
  from sequential_schedule [OF f1 this]
  have run1: "ExecuteBatchConcurrent failingExecutor (twoRequestsConfig True) (0, []) (None, (2, ?tr))" .
  have f2: "fold (workJob failingExecutor (twoRequestsConfig False)) (Request (twoRequestsConfig False))
      (fst (0, []), snd (0, []), None) = (2, ?tr, Some ?e)"
    by (simp add: pool_eval)
  have "finalSelect failingExecutor (twoRequestsConfig False)
      (\<lparr>unsent = [], jobs = [], jobsClosed = True, errCh = Some ?e, workers = [],
        world = 2, trace = ?tr\<rparr> :: (nat, string) pool)
      (if \<not> IgnoreFail (twoRequestsConfig False) then Some ?e else None)"
    by (rule finalSelect.error_received) simp
  then have "finalSelect failingExecutor (twoRequestsConfig False)
      (\<lparr>unsent = [], jobs = [], jobsClosed = True, errCh = Some ?e, workers = [],
        world = 2, trace = ?tr\<rparr> :: (nat, string) pool) (Some ?e)"
    by (simp add: twoRequestsConfig_def)
  from sequential_schedule [OF f2 this]
  have run2: "ExecuteBatchConcurrent failingExecutor (twoRequestsConfig False) (0, []) (Some ?e, (2, ?tr))" .
  from ExecuteBatchConcurrent_ignoreFail [OF run1 live] ExecuteBatchConcurrent_ignoreFail [OF run2 live]
  have "\<not> IgnoreFail (twoRequestsConfig False)"
    by simp
  moreover have "IgnoreFail (twoRequestsConfig True)"
    by (simp add: twoRequestsConfig_def)
  ultimately show ?thesis
    using run1 run2 live by simp
qed

end
